theory Spec2Isabelle
  imports Complex_Main "HOL-Library.Word"
begin

section \<open>A deterministic market-data backtester: embedding and properties\<close>

text \<open>
  The definitions below follow the Python sources of the backtester function by function.
  Python integers are unbounded and are modelled as \<open>int\<close>; every \<open>raise\<close> is a value
  \<open>Inl e\<close> of a sum type; objects that the code mutates (the book, the portfolio, the
  batcher's local variables, files) are passed in and returned explicitly.
\<close>

subsection \<open>Errors (\<open>core/errors.py\<close> and the exceptions of the standard library)\<close>

text \<open>
  The subclasses of \<open>BacktestError\<close> carry their message; where the source builds the
  message with an f-string the fixed text is kept and the interpolated value is left out.
  \<open>ValueError\<close>, \<open>DecimalOverflow\<close>, \<open>DecimalInvalidOperation\<close>, \<open>StructError\<close> and
  \<open>KeyError\<close> are the exceptions of Python's own library that the code can meet.
\<close>

datatype error =
    SchemaError string
  | OrderingError string
  | QuantizationError string
  | ValueError string
  | DecimalOverflow
  | DecimalInvalidOperation
  | StructError
  | KeyError

subsection \<open>Domain types (\<open>core/types.py\<close>, \<open>evlog/types.py\<close>)\<close>

text \<open>
  \<open>TsNs\<close>, \<open>Ticks\<close>, \<open>Lots\<close>, \<open>QuoteAtoms\<close> and \<open>Bps\<close> are \<open>NewType\<close> aliases of
  Python's \<open>int\<close>. \<open>Side\<close> is an \<open>IntEnum\<close> with \<open>BID = 0\<close> and \<open>ASK = 1\<close>.
\<close>

datatype Side = BID | ASK

fun side_value :: "Side \<Rightarrow> int" where
  "side_value BID = 0"
| "side_value ASK = 1"

record L2Update =
  side :: Side
  price_ticks :: int
  amount_lots :: int
  is_snapshot :: bool

record L2Batch =
  ts_recv_ns :: int
  ts_exch_ns :: int
  resets_book :: bool
  updates :: "L2Update list"

subsection \<open>Byte strings and \<open>struct\<close> packing\<close>

text \<open>
  A \<open>bytes\<close> value and the content of a binary file are lists of 8-bit words. All
  formats of the event log start with \<open><\<close>: little-endian, no padding. \<open>struct.pack\<close>
  raises \<open>struct.error\<close> when a number does not fit its field.
\<close>

type_synonym byte = "8 word"

fun le_bytes :: "nat \<Rightarrow> nat \<Rightarrow> byte list" where
  "le_bytes 0 v = []"
| "le_bytes (Suc n) v = word_of_nat (v mod 256) # le_bytes n (v div 256)"

fun le_value :: "byte list \<Rightarrow> nat" where
  "le_value [] = 0"
| "le_value (b # bs) = unat b + 256 * le_value bs"

definition pack_uint :: "nat \<Rightarrow> int \<Rightarrow> error + byte list" where
  "pack_uint n v =
     (if 0 \<le> v \<and> v < 2 ^ (8 * n) then Inr (le_bytes n (nat v)) else Inl StructError)"

definition pack_sint :: "nat \<Rightarrow> int \<Rightarrow> error + byte list" where
  "pack_sint n v =
     (if - (2 ^ (8 * n - 1)) \<le> v \<and> v < 2 ^ (8 * n - 1)
      then Inr (le_bytes n (nat (v mod 2 ^ (8 * n))))
      else Inl StructError)"

definition unpack_uint :: "byte list \<Rightarrow> int" where
  "unpack_uint bs = int (le_value bs)"

definition unpack_sint :: "byte list \<Rightarrow> int" where
  "unpack_sint bs =
     (let u = int (le_value bs) in
      if u \<ge> 2 ^ (8 * length bs - 1) then u - 2 ^ (8 * length bs) else u)"

text \<open>The range of a 64-bit signed field (\<open>q\<close>).\<close>

definition int64 :: "int \<Rightarrow> bool" where
  "int64 v \<longleftrightarrow> - (2 ^ 63) \<le> v \<and> v < 2 ^ 63"

definition ascii_bytes :: "string \<Rightarrow> byte list" where
  "ascii_bytes s = map (\<lambda>c. word_of_nat (of_char c)) s"

text \<open>\<open>data[a:b]\<close> on a byte string.\<close>

definition slice :: "nat \<Rightarrow> nat \<Rightarrow> 'a list \<Rightarrow> 'a list" where
  "slice a b xs = take (b - a) (drop a xs)"

subsection \<open>The event-log format (\<open>evlog/format.py\<close>)\<close>

definition MAGIC :: "byte list" where
  "MAGIC = ascii_bytes ''MMEVLOG'' @ [0]"

definition VERSION :: int where
  "VERSION = 1"

text \<open>\<open>format.py\<close> and \<open>index.py\<close> each define \<open>ENDIAN_LITTLE = 1\<close>.\<close>

definition ENDIAN_LITTLE :: int where
  "ENDIAN_LITTLE = 1"

text \<open>The sizes that \<open>struct.calcsize\<close> gives for the six format strings.\<close>

definition HEADER_BASE_SIZE :: nat where
  "HEADER_BASE_SIZE = 16"

definition HEADER_V1_EXTRA_SIZE :: nat where
  "HEADER_V1_EXTRA_SIZE = 48"

definition HEADER_V1_SIZE :: nat where
  "HEADER_V1_SIZE = HEADER_BASE_SIZE + HEADER_V1_EXTRA_SIZE"

definition RECORD_HEADER_SIZE :: nat where
  "RECORD_HEADER_SIZE = 8"

definition L2_BATCH_HEADER_SIZE :: nat where
  "L2_BATCH_HEADER_SIZE = 24"

definition L2_UPDATE_SIZE :: nat where
  "L2_UPDATE_SIZE = 24"

definition L2_BATCH :: int where
  "L2_BATCH = 1"

record EvlogHeader =
  hdr_version :: int
  hdr_endian :: int
  hdr_flags :: int
  hdr_exchange_id :: "int option"
  hdr_symbol_id :: "int option"
  hdr_quantizer_hash :: "byte list option"

text \<open>A sequence of packing steps stops at the first one that raises.\<close>

fun pack_all :: "(error + byte list) list \<Rightarrow> error + byte list" where
  "pack_all [] = Inr []"
| "pack_all (Inl e # steps) = Inl e"
| "pack_all (Inr bs # steps) =
     (case pack_all steps of Inl e \<Rightarrow> Inl e | Inr rest \<Rightarrow> Inr (bs @ rest))"

definition pack_header ::
  "int \<Rightarrow> int \<Rightarrow> int \<Rightarrow> byte list option \<Rightarrow> error + byte list" where
  "pack_header flags exchange_id symbol_id quantizer_hash =
     (let qh = (case quantizer_hash of None \<Rightarrow> replicate 32 0 | Some h \<Rightarrow> h) in
      if length qh \<noteq> 32 then Inl (SchemaError ''quantizer_hash must be 32 bytes'')
      else if exchange_id < 0 \<or> exchange_id > 2 ^ 64 - 1
      then Inl (SchemaError ''exchange_id out of range'')
      else if symbol_id < 0 \<or> symbol_id > 2 ^ 64 - 1
      then Inl (SchemaError ''symbol_id out of range'')
      else
        pack_all [Inr MAGIC, pack_uint 1 VERSION, pack_uint 1 ENDIAN_LITTLE,
                  pack_uint 2 flags, pack_uint 4 0,
                  pack_uint 8 exchange_id, pack_uint 8 symbol_id, Inr qh])"

text \<open>
  An open binary file is its content and the position of the next read. \<open>f.read(n)\<close>
  returns up to \<open>n\<close> bytes from the position and advances it by what it returned.
\<close>

definition file_read :: "byte list \<Rightarrow> nat \<Rightarrow> nat \<Rightarrow> byte list \<times> nat" where
  "file_read content pos n =
     (let data = take n (drop pos content) in (data, pos + length data))"

definition read_header :: "byte list \<Rightarrow> nat \<Rightarrow> error + (EvlogHeader \<times> nat)" where
  "read_header content pos =
     (let (base, pos1) = file_read content pos HEADER_BASE_SIZE in
      if base = [] then Inl (SchemaError ''missing evlog header'')
      else if length base \<noteq> HEADER_BASE_SIZE then Inl (SchemaError ''truncated evlog header'')
      else
        let magic = slice 0 8 base;
            version = unpack_uint (slice 8 9 base);
            endian = unpack_uint (slice 9 10 base);
            flags = unpack_uint (slice 10 12 base);
            reserved = unpack_uint (slice 12 16 base)
        in
        if magic \<noteq> MAGIC then Inl (SchemaError ''invalid evlog magic'')
        else if version = 0 then
          (if endian \<noteq> ENDIAN_LITTLE then Inl (SchemaError ''unsupported evlog endian'')
           else if reserved \<noteq> 0 then Inl (SchemaError ''non-zero header reserved field'')
           else Inr (\<lparr>hdr_version = version, hdr_endian = endian, hdr_flags = flags,
                      hdr_exchange_id = None, hdr_symbol_id = None,
                      hdr_quantizer_hash = None\<rparr>, pos1))
        else if version \<noteq> VERSION then Inl (SchemaError ''unsupported evlog version'')
        else
          let (extra, pos2) = file_read content pos1 HEADER_V1_EXTRA_SIZE in
          if length extra \<noteq> HEADER_V1_EXTRA_SIZE
          then Inl (SchemaError ''truncated evlog header'')
          else
            let exchange_id = unpack_uint (slice 0 8 extra);
                symbol_id = unpack_uint (slice 8 16 extra);
                quantizer_hash = slice 16 48 extra
            in
            if endian \<noteq> ENDIAN_LITTLE then Inl (SchemaError ''unsupported evlog endian'')
            else if reserved \<noteq> 0 then Inl (SchemaError ''non-zero header reserved field'')
            else Inr (\<lparr>hdr_version = version, hdr_endian = endian, hdr_flags = flags,
                       hdr_exchange_id = Some exchange_id, hdr_symbol_id = Some symbol_id,
                       hdr_quantizer_hash = Some quantizer_hash\<rparr>, pos2))"

definition unpack_record_header :: "byte list \<Rightarrow> error + (int \<times> int)" where
  "unpack_record_header data =
     (if length data \<noteq> RECORD_HEADER_SIZE then Inl (SchemaError ''invalid record header size'')
      else
        let rec_type = unpack_uint (slice 0 1 data);
            flags = unpack_uint (slice 1 2 data);
            reserved = unpack_uint (slice 2 4 data);
            len = unpack_uint (slice 4 8 data)
        in
        if flags \<noteq> 0 then Inl (SchemaError ''non-zero record flags'')
        else if reserved \<noteq> 0 then Inl (SchemaError ''non-zero record reserved field'')
        else Inr (rec_type, len))"

subsection \<open>The time index (\<open>evlog/index.py\<close>)\<close>

record IndexEntry =
  entry_ts_recv_ns :: int
  entry_offset :: int

definition INDEX_MAGIC :: "byte list" where
  "INDEX_MAGIC = ascii_bytes ''MMEVLIDX''"

definition INDEX_VERSION :: int where
  "INDEX_VERSION = 0"

definition INDEX_HEADER_SIZE :: nat where
  "INDEX_HEADER_SIZE = 16"

definition INDEX_ENTRY_SIZE :: nat where
  "INDEX_ENTRY_SIZE = 16"


definition index_unpack_header :: "byte list \<Rightarrow> error + unit" where
  "index_unpack_header data =
     (if length data \<noteq> INDEX_HEADER_SIZE then Inl (SchemaError ''invalid index header size'')
      else
        let magic = slice 0 8 data;
            version = unpack_uint (slice 8 9 data);
            endian = unpack_uint (slice 9 10 data);
            reserved = unpack_uint (slice 12 16 data)
        in
        if magic \<noteq> INDEX_MAGIC then Inl (SchemaError ''invalid index magic'')
        else if version \<noteq> INDEX_VERSION then Inl (SchemaError ''unsupported index version'')
        else if endian \<noteq> ENDIAN_LITTLE then Inl (SchemaError ''unsupported index endian'')
        else if reserved \<noteq> 0 then Inl (SchemaError ''non-zero index reserved field'')
        else Inr ())"





text \<open>
  The loop of \<open>read_index\<close> over \<open>range(0, len(data), INDEX_ENTRY_SIZE)\<close>;
  \<open>struct.unpack_from("<q q", data, offset)\<close> reads 16 bytes at \<open>offset\<close>.
\<close>

fun read_entries_loop ::
  "byte list \<Rightarrow> nat list \<Rightarrow> int option \<Rightarrow> int option \<Rightarrow> IndexEntry list
     \<Rightarrow> error + IndexEntry list" where
  "read_entries_loop data [] prev_ts prev_offset entries = Inr entries"
| "read_entries_loop data (offset # offsets) prev_ts prev_offset entries =
     (let ts = unpack_sint (slice offset (offset + 8) data);
          rec_offset = unpack_sint (slice (offset + 8) (offset + 16) data)
      in
      if ts < 0 then Inl (SchemaError ''negative index timestamp'')
      else if rec_offset < 0 then Inl (SchemaError ''negative index offset'')
      else if (case prev_ts of None \<Rightarrow> False | Some pt \<Rightarrow> ts < pt)
      then Inl (SchemaError ''index timestamps not monotone'')
      else if (case prev_offset of None \<Rightarrow> False | Some po \<Rightarrow> rec_offset \<le> po)
      then Inl (SchemaError ''index offsets not increasing'')
      else read_entries_loop data offsets (Some ts) (Some rec_offset)
             (entries @ [\<lparr>entry_ts_recv_ns = ts, entry_offset = rec_offset\<rparr>]))"

definition read_index :: "byte list \<Rightarrow> error + IndexEntry list" where
  "read_index file =
     (let header = take INDEX_HEADER_SIZE file in
      case index_unpack_header header of
        Inl e \<Rightarrow> Inl e
      | Inr _ \<Rightarrow>
          let data = drop INDEX_HEADER_SIZE file in
          if length data mod INDEX_ENTRY_SIZE \<noteq> 0
          then Inl (SchemaError ''index payload size mismatch'')
          else read_entries_loop data
                 (map (\<lambda>i. i * INDEX_ENTRY_SIZE) [0 ..< length data div INDEX_ENTRY_SIZE])
                 None None [])"





text \<open>The bytes of a sequence of 64-bit entries, as they lie in an index file.\<close>

definition index_payload :: "IndexEntry list \<Rightarrow> byte list" where
  "index_payload entries =
     concat (map (\<lambda>entry. le_bytes 8 (nat (entry_ts_recv_ns entry mod 2 ^ 64))
                          @ le_bytes 8 (nat (entry_offset entry mod 2 ^ 64))) entries)"

subsection \<open>Binary search (\<open>bisect.bisect_left\<close> of the standard library)\<close>

text \<open>
  \<open>bisect_left(a, x)\<close> runs \<open>lo, hi = 0, len(a)\<close>;
  \<open>while lo < hi: mid = (lo + hi) // 2;  if a[mid] < x: lo = mid + 1  else: hi = mid\<close>
  and returns \<open>lo\<close>. Inside the loop \<open>mid < hi \<le> len(a)\<close>, so \<open>a[mid]\<close> is in range.
\<close>

function bisect_loop :: "int list \<Rightarrow> int \<Rightarrow> nat \<Rightarrow> nat \<Rightarrow> nat" where
  "bisect_loop a x lo hi =
     (if lo < hi then
        let mid = (lo + hi) div 2 in
        if a ! mid < x then bisect_loop a x (mid + 1) hi else bisect_loop a x lo mid
      else lo)"
  by pat_completeness auto
termination
  by (relation "measure (\<lambda>(a, x, lo, hi). hi - lo)") auto

declare bisect_loop.simps [simp del]

definition bisect_left :: "int list \<Rightarrow> int \<Rightarrow> nat" where
  "bisect_left a x = bisect_loop a x 0 (length a)"

subsection \<open>The reference order book (\<open>book/book_py.py\<close>)\<close>

text \<open>\<open>prices.insert(idx, price)\<close> and \<open>prices.pop(idx)\<close> on a Python list.\<close>

definition list_insert :: "'a list \<Rightarrow> nat \<Rightarrow> 'a \<Rightarrow> 'a list" where
  "list_insert xs idx v = take idx xs @ [v] @ drop idx xs"

definition list_pop :: "'a list \<Rightarrow> nat \<Rightarrow> 'a list" where
  "list_pop xs idx = take idx xs @ drop (Suc idx) xs"

definition insert_price :: "int list \<Rightarrow> int \<Rightarrow> int list" where
  "insert_price prices price =
     (let idx = bisect_left prices price in
      if idx < length prices \<and> prices ! idx = price then prices
      else list_insert prices idx price)"

definition remove_price :: "int list \<Rightarrow> int \<Rightarrow> int list" where
  "remove_price prices price =
     (let idx = bisect_left prices price in
      if idx < length prices \<and> prices ! idx = price then list_pop prices idx
      else prices)"

text \<open>
  The four containers of a \<open>BookPy\<close> object and its \<open>_reject_crossed\<close> flag. The two
  dictionaries are maps from price to size.
\<close>

record BookPy =
  reject_crossed :: bool
  bids :: "int \<rightharpoonup> int"
  asks :: "int \<rightharpoonup> int"
  bid_prices :: "int list"
  ask_prices :: "int list"

definition reset :: "BookPy \<Rightarrow> BookPy" where
  "reset b = b\<lparr>bids := Map.empty, asks := Map.empty, bid_prices := [], ask_prices := []\<rparr>"

definition BookPy_init :: "bool \<Rightarrow> BookPy" where
  "BookPy_init rc =
     reset \<lparr>reject_crossed = rc, bids = Map.empty, asks = Map.empty,
            bid_prices = [], ask_prices = []\<rparr>"

definition apply_level ::
  "(int \<rightharpoonup> int) \<Rightarrow> int list \<Rightarrow> int \<Rightarrow> int \<Rightarrow> (int \<rightharpoonup> int) \<times> int list" where
  "apply_level levels prices price amount =
     (if amount = 0 then
        (if levels price \<noteq> None
         then (levels(price := None), remove_price prices price)
         else (levels, prices))
      else (levels(price \<mapsto> amount), insert_price prices price))"

definition apply_update :: "BookPy \<Rightarrow> L2Update \<Rightarrow> error + BookPy" where
  "apply_update b update =
     (let price = price_ticks update; amount = amount_lots update in
      if price \<le> 0 then Inl (SchemaError ''non-positive price'')
      else if amount < 0 then Inl (SchemaError ''negative amount'')
      else
        (case side update of
           BID \<Rightarrow>
             let (lv, ps) = apply_level (bids b) (bid_prices b) price amount
             in Inr (b\<lparr>bids := lv, bid_prices := ps\<rparr>)
         | ASK \<Rightarrow>
             let (lv, ps) = apply_level (asks b) (ask_prices b) price amount
             in Inr (b\<lparr>asks := lv, ask_prices := ps\<rparr>)))"

definition check_crossed :: "BookPy \<Rightarrow> error option" where
  "check_crossed b =
     (if bid_prices b = [] \<or> ask_prices b = [] then None
      else if last (bid_prices b) \<ge> hd (ask_prices b) then Some (SchemaError ''crossed book'')
      else None)"

text \<open>
  The loop of \<open>apply_l2_batch\<close> over the updates. The book is mutated update by update,
  so a raise leaves the updates before it applied: the book is returned in both cases.
\<close>

fun apply_updates :: "BookPy \<Rightarrow> L2Update list \<Rightarrow> BookPy \<times> error option" where
  "apply_updates b [] = (b, None)"
| "apply_updates b (u # us) =
     (case apply_update b u of
        Inl e \<Rightarrow> (b, Some e)
      | Inr b' \<Rightarrow> apply_updates b' us)"

definition apply_l2_batch :: "BookPy \<Rightarrow> L2Batch \<Rightarrow> BookPy \<times> error option" where
  "apply_l2_batch b batch =
     (let b0 = (if resets_book batch then reset b else b) in
      case apply_updates b0 (updates batch) of
        (b1, Some e) \<Rightarrow> (b1, Some e)
      | (b1, None) \<Rightarrow>
          if reject_crossed b1 then (b1, check_crossed b1) else (b1, None))"

text \<open>\<open>self._bids[px]\<close> raises \<open>KeyError\<close> when the price is not a key.\<close>

definition dict_get :: "(int \<rightharpoonup> int) \<Rightarrow> int \<Rightarrow> error + int" where
  "dict_get m k = (case m k of None \<Rightarrow> Inl KeyError | Some v \<Rightarrow> Inr v)"

definition best_bid_ask ::
  "BookPy \<Rightarrow> error + (int option \<times> int option \<times> int option \<times> int option)" where
  "best_bid_ask b =
     (case (if bid_prices b = [] then Inr (None, None)
            else (case dict_get (bids b) (last (bid_prices b)) of
                    Inl e \<Rightarrow> Inl e
                  | Inr q \<Rightarrow> Inr (Some (last (bid_prices b)), Some q))) of
        Inl e \<Rightarrow> Inl e
      | Inr (bid_px, bid_qty) \<Rightarrow>
          (case (if ask_prices b = [] then Inr (None, None)
                 else (case dict_get (asks b) (hd (ask_prices b)) of
                         Inl e \<Rightarrow> Inl e
                       | Inr q \<Rightarrow> Inr (Some (hd (ask_prices b)), Some q))) of
             Inl e \<Rightarrow> Inl e
           | Inr (ask_px, ask_qty) \<Rightarrow> Inr (bid_px, bid_qty, ask_px, ask_qty)))"

text \<open>
  The loop of \<open>levels\<close> over the ordered prices, with its two output lists; it stops as
  soon as \<open>depth\<close> levels are collected.
\<close>

fun levels_loop ::
  "(int \<rightharpoonup> int) \<Rightarrow> int list \<Rightarrow> int \<Rightarrow> int list \<Rightarrow> int list
     \<Rightarrow> error + (int list \<times> int list)" where
  "levels_loop lv [] depth out_prices out_sizes = Inr (out_prices, out_sizes)"
| "levels_loop lv (price # ordered) depth out_prices out_sizes =
     (case dict_get lv price of
        Inl e \<Rightarrow> Inl e
      | Inr s \<Rightarrow>
          if int (length (out_prices @ [price])) \<ge> depth
          then Inr (out_prices @ [price], out_sizes @ [s])
          else levels_loop lv ordered depth (out_prices @ [price]) (out_sizes @ [s]))"

definition levels :: "BookPy \<Rightarrow> Side \<Rightarrow> int \<Rightarrow> error + (int list \<times> int list)" where
  "levels b sd depth =
     (if depth \<le> 0 then Inr ([], [])
      else
        (case sd of
           BID \<Rightarrow> levels_loop (bids b) (rev (bid_prices b)) depth [] []
         | ASK \<Rightarrow> levels_loop (asks b) (ask_prices b) depth [] []))"

text \<open>
  The states a book object can be in: freshly constructed, after \<open>reset()\<close>, and after
  \<open>apply_l2_batch(batch)\<close> for any batch, whether the call returned or raised.
\<close>

inductive reachable :: "BookPy \<Rightarrow> bool" where
  init: "reachable (BookPy_init rc)"
| after_reset: "reachable b \<Longrightarrow> reachable (reset b)"
| after_apply: "reachable b \<Longrightarrow> reachable (fst (apply_l2_batch b batch))"

text \<open>The invariant of one side: a price array and its price-to-size dictionary.\<close>

definition side_inv :: "(int \<rightharpoonup> int) \<Rightarrow> int list \<Rightarrow> bool" where
  "side_inv lv prices \<longleftrightarrow>
     sorted_wrt (<) prices \<and> set prices = dom lv \<and> (\<forall>p s. lv p = Some s \<longrightarrow> 0 < s)"

definition valid_update :: "L2Update \<Rightarrow> bool" where
  "valid_update u \<longleftrightarrow> 0 < price_ticks u \<and> 0 \<le> amount_lots u"

definition book_inv :: "BookPy \<Rightarrow> bool" where
  "book_inv b \<longleftrightarrow> side_inv (bids b) (bid_prices b) \<and> side_inv (asks b) (ask_prices b)"

subsection \<open>The event-log writer (\<open>evlog/writer.py\<close>)\<close>

definition require_int64 :: "int \<Rightarrow> string \<Rightarrow> error option" where
  "require_int64 v field =
     (if v < - (2 ^ 63) \<or> v > 2 ^ 63 - 1 then Some (SchemaError (field @ '' out of int64 range''))
      else None)"

text \<open>
  \<open>EvlogWriter.__enter__\<close> opens the file for writing and writes the header; the result
  is the content of the file.
\<close>

definition EvlogWriter_enter :: "int \<Rightarrow> int \<Rightarrow> byte list option \<Rightarrow> error + byte list" where
  "EvlogWriter_enter exchange_id symbol_id quantizer_hash =
     (case pack_header 0 exchange_id symbol_id quantizer_hash of
        Inl e \<Rightarrow> Inl e
      | Inr hdr \<Rightarrow> Inr ([] @ hdr))"

text \<open>\<open>tell()\<close>: the file is \<open>None\<close> when the writer is closed.\<close>

definition writer_tell :: "byte list option \<Rightarrow> error + int" where
  "writer_tell file =
     (case file of None \<Rightarrow> Inl (SchemaError ''writer is closed'')
      | Some content \<Rightarrow> Inr (int (length content)))"

text \<open>
  The three \<open>struct\<close> calls of \<open>write_l2_batch\<close>:
  \<open>pack_into("<q q B 3x I", payload, 0, ts_recv_ns, ts_exch_ns, resets, update_count)\<close>,
  \<open>pack_into("<B B H q q I", payload, offset, side, is_snapshot, 0, price, amount, 0)\<close>
  and \<open>pack("<B B H I", L2_BATCH, 0, 0, payload_len)\<close>.
\<close>

definition pack_l2_batch_header :: "L2Batch \<Rightarrow> int \<Rightarrow> error + byte list" where
  "pack_l2_batch_header batch update_count =
     pack_all [pack_sint 8 (ts_recv_ns batch), pack_sint 8 (ts_exch_ns batch),
               pack_uint 1 (if resets_book batch then 1 else 0),
               Inr (replicate 3 0), pack_uint 4 update_count]"

definition pack_l2_update :: "L2Update \<Rightarrow> error + byte list" where
  "pack_l2_update update =
     pack_all [pack_uint 1 (side_value (side update)),
               pack_uint 1 (if is_snapshot update then 1 else 0),
               pack_uint 2 0,
               pack_sint 8 (price_ticks update),
               pack_sint 8 (amount_lots update),
               pack_uint 4 0]"

definition pack_record_header :: "int \<Rightarrow> error + byte list" where
  "pack_record_header payload_len =
     pack_all [pack_uint 1 L2_BATCH, pack_uint 1 0, pack_uint 2 0, pack_uint 4 payload_len]"

text \<open>
  The loop of \<open>write_l2_batch\<close> over the updates. Each \<open>struct.pack_into\<close> fills the next
  24 bytes of the zeroed payload, so the payload is the concatenation of the packed
  updates. \<open>int(update.side)\<close> is 0 or 1 for every \<open>Side\<close>, so that check cannot fail.
\<close>

fun pack_updates :: "L2Update list \<Rightarrow> error + byte list" where
  "pack_updates [] = Inr []"
| "pack_updates (update # rest) =
     (case require_int64 (price_ticks update) ''price_ticks'' of
        Some e \<Rightarrow> Inl e
      | None \<Rightarrow>
     (case require_int64 (amount_lots update) ''amount_lots'' of
        Some e \<Rightarrow> Inl e
      | None \<Rightarrow>
        if price_ticks update \<le> 0 then Inl (SchemaError ''non-positive price_ticks'')
        else if amount_lots update < 0 then Inl (SchemaError ''negative amount_lots'')
        else
          (case pack_l2_update update of
             Inl e \<Rightarrow> Inl e
           | Inr bs \<Rightarrow>
               (case pack_updates rest of
                  Inl e \<Rightarrow> Inl e
                | Inr tail_bytes \<Rightarrow> Inr (bs @ tail_bytes)))))"

text \<open>
  \<open>write_l2_batch\<close> writes nothing before its last two statements, so a raise leaves the
  file as it was; on success the result is the new content of the file.
\<close>

definition write_l2_batch :: "byte list option \<Rightarrow> L2Batch \<Rightarrow> error + byte list" where
  "write_l2_batch file batch =
     (case file of
        None \<Rightarrow> Inl (SchemaError ''writer is closed'')
      | Some content \<Rightarrow>
     (case require_int64 (ts_recv_ns batch) ''ts_recv_ns'' of
        Some e \<Rightarrow> Inl e
      | None \<Rightarrow>
     (case require_int64 (ts_exch_ns batch) ''ts_exch_ns'' of
        Some e \<Rightarrow> Inl e
      | None \<Rightarrow>
        if ts_recv_ns batch < 0 \<or> ts_exch_ns batch < 0 then Inl (SchemaError ''negative timestamp'')
        else
          let update_count = int (length (updates batch)) in
          if update_count < 0 \<or> update_count > 2 ^ 32 - 1
          then Inl (SchemaError ''update_count out of u32 range'')
          else
            let payload_len = int L2_BATCH_HEADER_SIZE + update_count * int L2_UPDATE_SIZE in
            if payload_len mod 8 \<noteq> 0 then Inl (SchemaError ''l2 payload size not 8-byte aligned'')
            else
              (case pack_l2_batch_header batch update_count of
                 Inl e \<Rightarrow> Inl e
               | Inr batch_header \<Rightarrow>
              (case pack_updates (updates batch) of
                 Inl e \<Rightarrow> Inl e
               | Inr body \<Rightarrow>
              (case pack_record_header payload_len of
                 Inl e \<Rightarrow> Inl e
               | Inr record_header \<Rightarrow>
                   if length record_header \<noteq> RECORD_HEADER_SIZE
                   then Inl (SchemaError ''record header size mismatch'')
                   else Inr (content @ record_header @ (batch_header @ body))))))))"

text \<open>
  Writing a sequence of batches the way the compiler does: before each write it records
  an index entry \<open>(batch.ts_recv_ns, writer.tell())\<close>. The first raise ends the run.
\<close>

fun write_batches ::
  "byte list \<Rightarrow> IndexEntry list \<Rightarrow> L2Batch list \<Rightarrow> error + (byte list \<times> IndexEntry list)" where
  "write_batches content entries [] = Inr (content, entries)"
| "write_batches content entries (batch # batches) =
     (case writer_tell (Some content) of
        Inl e \<Rightarrow> Inl e
      | Inr offset \<Rightarrow>
          (case write_l2_batch (Some content) batch of
             Inl e \<Rightarrow> Inl e
           | Inr content' \<Rightarrow>
               write_batches content'
                 (entries @ [\<lparr>entry_ts_recv_ns = ts_recv_ns batch, entry_offset = offset\<rparr>])
                 batches))"

subsection \<open>The event-log reader (\<open>evlog/reader.py\<close>)\<close>

text \<open>
  The loop of \<open>_decode_l2_payload\<close> over \<open>range(update_count)\<close>, with its locals
  \<open>offset\<close> and \<open>updates\<close>. \<open>Side(side_value)\<close> raises for any value but 0 and 1.
\<close>

fun decode_updates ::
  "byte list \<Rightarrow> nat \<Rightarrow> nat \<Rightarrow> L2Update list \<Rightarrow> error + L2Update list" where
  "decode_updates payload 0 offset acc = Inr acc"
| "decode_updates payload (Suc n) offset acc =
     (let side_v = unpack_uint (slice offset (offset + 1) payload);
          snap = unpack_uint (slice (offset + 1) (offset + 2) payload);
          r16 = unpack_uint (slice (offset + 2) (offset + 4) payload);
          price = unpack_sint (slice (offset + 4) (offset + 12) payload);
          amount = unpack_sint (slice (offset + 12) (offset + 20) payload);
          r32 = unpack_uint (slice (offset + 20) (offset + 24) payload)
      in
      if r16 \<noteq> 0 \<or> r32 \<noteq> 0 then Inl (SchemaError ''non-zero l2 update reserved fields'')
      else if side_v \<noteq> 0 \<and> side_v \<noteq> 1 then Inl (SchemaError ''invalid side'')
      else if snap \<noteq> 0 \<and> snap \<noteq> 1 then Inl (SchemaError ''invalid is_snapshot flag'')
      else if price \<le> 0 then Inl (SchemaError ''non-positive price_ticks'')
      else if amount < 0 then Inl (SchemaError ''negative amount_lots'')
      else decode_updates payload n (offset + L2_UPDATE_SIZE)
             (acc @ [\<lparr>side = (if side_v = 0 then BID else ASK), price_ticks = price,
                       amount_lots = amount, is_snapshot = (snap \<noteq> 0)\<rparr>]))"

definition decode_l2_payload :: "byte list \<Rightarrow> error + L2Batch" where
  "decode_l2_payload payload =
     (if length payload < L2_BATCH_HEADER_SIZE then Inl (SchemaError ''l2 payload too small'')
      else
        let ts_recv = unpack_sint (slice 0 8 payload);
            ts_exch = unpack_sint (slice 8 16 payload);
            resets = unpack_uint (slice 16 17 payload);
            update_count = nat (unpack_uint (slice 20 24 payload))
        in
        if ts_recv < 0 \<or> ts_exch < 0 then Inl (SchemaError ''negative timestamp'')
        else if resets \<noteq> 0 \<and> resets \<noteq> 1 then Inl (SchemaError ''invalid resets_book flag'')
        else if length payload \<noteq> L2_BATCH_HEADER_SIZE + update_count * L2_UPDATE_SIZE
        then Inl (SchemaError ''l2 payload size mismatch'')
        else
          (case decode_updates payload update_count L2_BATCH_HEADER_SIZE [] of
             Inl e \<Rightarrow> Inl e
           | Inr us \<Rightarrow>
               Inr \<lparr>ts_recv_ns = ts_recv, ts_exch_ns = ts_exch,
                    resets_book = (resets \<noteq> 0), updates = us\<rparr>))"

text \<open>
  An \<open>EvlogReader\<close>: the content of the file, the position of the open file (\<open>None\<close>
  while closed) and the index loaded by the constructor, if any.
\<close>

record EvlogReader =
  rd_content :: "byte list"
  rd_pos :: "nat option"
  rd_header :: "EvlogHeader option"
  rd_index :: "IndexEntry list option"
  rd_index_ts :: "int list option"

definition EvlogReader_init :: "byte list \<Rightarrow> byte list option \<Rightarrow> error + EvlogReader" where
  "EvlogReader_init content index_file =
     (case index_file of
        None \<Rightarrow> Inr \<lparr>rd_content = content, rd_pos = None, rd_header = None,
                     rd_index = None, rd_index_ts = None\<rparr>
      | Some idx \<Rightarrow>
          (case read_index idx of
             Inl e \<Rightarrow> Inl e
           | Inr entries \<Rightarrow>
               Inr \<lparr>rd_content = content, rd_pos = None, rd_header = None,
                    rd_index = Some entries,
                    rd_index_ts = Some (map entry_ts_recv_ns entries)\<rparr>))"

definition EvlogReader_enter :: "EvlogReader \<Rightarrow> error + EvlogReader" where
  "EvlogReader_enter r =
     (case read_header (rd_content r) 0 of
        Inl e \<Rightarrow> Inl e
      | Inr (h, pos) \<Rightarrow> Inr (r\<lparr>rd_pos := Some pos, rd_header := Some h\<rparr>))"


text \<open>
  The \<open>while True\<close> loop of \<open>iter_l2_batches\<close>. The generator yields batch after batch;
  the model returns the batches yielded, the error that ended the iteration if one did,
  and the final position. Each round either ends the loop or consumes at least the eight
  bytes of a record header, which is why the loop terminates.
\<close>

function iter_loop ::
  "byte list \<Rightarrow> nat \<Rightarrow> L2Batch list \<Rightarrow> L2Batch list \<times> error option \<times> nat" where
  "iter_loop content pos acc =
     (let (header, pos1) = file_read content pos RECORD_HEADER_SIZE in
      if header = [] then (acc, None, pos1)
      else if length header \<noteq> RECORD_HEADER_SIZE
      then (acc, Some (SchemaError ''truncated record header''), pos1)
      else
        (case unpack_record_header header of
           Inl e \<Rightarrow> (acc, Some e, pos1)
         | Inr (rec_type, payload_len) \<Rightarrow>
             if payload_len mod 8 \<noteq> 0
             then (acc, Some (SchemaError ''payload length not 8-byte aligned''), pos1)
             else
               let (payload, pos2) = file_read content pos1 (nat payload_len) in
               if int (length payload) \<noteq> payload_len
               then (acc, Some (SchemaError ''truncated payload''), pos2)
               else if rec_type = L2_BATCH then
                 (case decode_l2_payload payload of
                    Inl e \<Rightarrow> (acc, Some e, pos2)
                  | Inr batch \<Rightarrow> iter_loop content pos2 (acc @ [batch]))
               else (acc, Some (SchemaError ''unknown record type''), pos2)))"
  by pat_completeness auto
termination
proof (relation "measure (\<lambda>(content, pos, acc). length content - pos)")
  show "wf (measure (\<lambda>(content, pos, acc). length content - pos))" by simp
next
  fix content :: "byte list" and pos :: nat and acc :: "L2Batch list"
    and x header pos1 x2 xa rec_type payload_len xb payload pos2 x2a
  assume a: "x = file_read content pos RECORD_HEADER_SIZE" "(header, pos1) = x"
    "header \<noteq> []" "\<not> length header \<noteq> RECORD_HEADER_SIZE"
    "xb = file_read content pos1 (nat payload_len)" "(payload, pos2) = xb"
  from a(1,2) have h: "header = take RECORD_HEADER_SIZE (drop pos content)"
    "pos1 = pos + length header"
    by (simp_all add: file_read_def Let_def)
  from a(4) h(1) have "pos + 8 \<le> length content"
    by (simp add: RECORD_HEADER_SIZE_def min_def split: if_splits)
  moreover from a(5,6) have "pos1 \<le> pos2" by (simp add: file_read_def Let_def)
  moreover from h(2) a(4) have "pos1 = pos + 8" by (simp add: RECORD_HEADER_SIZE_def)
  ultimately show "((content, pos2, acc @ [x2a]), (content, pos, acc))
      \<in> measure (\<lambda>(content, pos, acc). length content - pos)"
    by simp
qed

declare iter_loop.simps [simp del]

definition iter_l2_batches :: "EvlogReader \<Rightarrow> error + (L2Batch list \<times> error option \<times> EvlogReader)" where
  "iter_l2_batches r =
     (case rd_pos r of
        None \<Rightarrow> Inl (SchemaError ''reader is closed'')
      | Some pos \<Rightarrow>
          (case iter_loop (rd_content r) pos [] of
             (batches, err, pos') \<Rightarrow> Inr (batches, err, r\<lparr>rd_pos := Some pos'\<rparr>)))"

text \<open>
  What \<open>write_l2_batch\<close> validates in a batch: both timestamps are non-negative 64-bit
  values, and every update has a positive price and a non-negative amount, both 64-bit.
  (The side of an update is valid by its type.)
\<close>

definition valid_l2_update :: "L2Update \<Rightarrow> bool" where
  "valid_l2_update u \<longleftrightarrow>
     int64 (price_ticks u) \<and> int64 (amount_lots u) \<and> 0 < price_ticks u \<and> 0 \<le> amount_lots u"

definition valid_batch :: "L2Batch \<Rightarrow> bool" where
  "valid_batch b \<longleftrightarrow>
     int64 (ts_recv_ns b) \<and> int64 (ts_exch_ns b) \<and> 0 \<le> ts_recv_ns b \<and> 0 \<le> ts_exch_ns b \<and>
     list_all valid_l2_update (updates b)"

text \<open>
  The length field of a record header has 32 bits, so a record can hold a payload of at
  most \<open>2^32 - 1\<close> bytes: 24 bytes of batch header and 24 bytes per update.
\<close>

definition fits_record :: "L2Batch \<Rightarrow> bool" where
  "fits_record b \<longleftrightarrow> 24 + 24 * length (updates b) \<le> 2 ^ 32 - 1"

text \<open>The bytes of an update, of a batch payload and of a whole record on disk.\<close>

definition update_bytes :: "L2Update \<Rightarrow> byte list" where
  "update_bytes u =
     le_bytes 1 (nat (side_value (side u))) @ le_bytes 1 (if is_snapshot u then 1 else 0)
       @ le_bytes 2 0 @ le_bytes 8 (nat (price_ticks u mod 2 ^ 64))
       @ le_bytes 8 (nat (amount_lots u mod 2 ^ 64)) @ le_bytes 4 0"

definition batch_header_bytes :: "L2Batch \<Rightarrow> byte list" where
  "batch_header_bytes b =
     le_bytes 8 (nat (ts_recv_ns b mod 2 ^ 64)) @ le_bytes 8 (nat (ts_exch_ns b mod 2 ^ 64))
       @ le_bytes 1 (if resets_book b then 1 else 0) @ replicate 3 0
       @ le_bytes 4 (length (updates b))"

definition batch_payload :: "L2Batch \<Rightarrow> byte list" where
  "batch_payload b = batch_header_bytes b @ concat (map update_bytes (updates b))"

definition record_header_bytes :: "nat \<Rightarrow> byte list" where
  "record_header_bytes payload_len =
     le_bytes 1 1 @ le_bytes 1 0 @ le_bytes 2 0 @ le_bytes 4 payload_len"

definition record_bytes :: "L2Batch \<Rightarrow> byte list" where
  "record_bytes b = record_header_bytes (24 + 24 * length (updates b)) @ batch_payload b"

text \<open>
  The index entries that go with a sequence of records laid out from offset \<open>off\<close>: each
  entry holds the batch's receive timestamp and the offset where its record starts.
\<close>

fun batch_entries :: "nat \<Rightarrow> L2Batch list \<Rightarrow> IndexEntry list" where
  "batch_entries off [] = []"
| "batch_entries off (b # bs) =
     \<lparr>entry_ts_recv_ns = ts_recv_ns b, entry_offset = int off\<rparr>
       # batch_entries (off + length (record_bytes b)) bs"

subsection \<open>Fees, portfolio and market-order execution (\<open>sim/\<close>)\<close>

text \<open>\<open>FixedBpsFeeModel\<close>: the constructor check and \<open>fee_atoms\<close>.\<close>

record FixedBpsFeeModel =
  bps :: int

definition FixedBpsFeeModel_init :: "int \<Rightarrow> error + FixedBpsFeeModel" where
  "FixedBpsFeeModel_init b =
     (if b < 0 then Inl (SchemaError ''fee bps must be non-negative'')
      else if b > 10000 then Inl (SchemaError ''fee bps too large'')
      else Inr \<lparr>bps = b\<rparr>)"

definition fee_atoms :: "FixedBpsFeeModel \<Rightarrow> int \<Rightarrow> error + int" where
  "fee_atoms fm notional =
     (if notional < 0 then Inl (SchemaError ''notional must be non-negative'')
      else Inr ((notional * bps fm) div 10000))"

record Portfolio =
  cash :: int
  position :: int

text \<open>
  \<open>Portfolio.apply_fill\<close> assigns \<open>self.cash\<close> and \<open>self.position\<close> only in its last two
  statements, so a raise leaves the object as it was: the error case returns no state.
\<close>

definition apply_fill ::
  "Portfolio \<Rightarrow> Side \<Rightarrow> int \<Rightarrow> int \<Rightarrow> int \<Rightarrow> bool \<Rightarrow> bool \<Rightarrow> error + Portfolio" where
  "apply_fill p sd price qty fee allow_short allow_margin =
     (if qty \<le> 0 then Inl (SchemaError ''qty_lots must be positive'')
      else if price \<le> 0 then Inl (SchemaError ''price_ticks must be positive'')
      else
        let notional = price * qty in
        if fee < 0 then Inl (SchemaError ''fee_atoms must be non-negative'')
        else
          (case sd of
             BID \<Rightarrow>
               let total = notional + fee in
               if \<not> allow_margin \<and> cash p < total
               then Inl (SchemaError ''insufficient cash for buy'')
               else Inr \<lparr>cash = cash p - total, position = position p + qty\<rparr>
           | ASK \<Rightarrow>
               if \<not> allow_short \<and> position p < qty
               then Inl (SchemaError ''insufficient position for sell'')
               else Inr \<lparr>cash = cash p + (notional - fee), position = position p - qty\<rparr>))"

record BookSnapshot =
  bid_px :: int
  bid_qty :: int
  ask_px :: int
  ask_qty :: int

record MarketOrder =
  order_side :: Side
  qty_lots :: int

record Fill =
  fill_ts_recv_ns :: int
  fill_side :: Side
  fill_price_ticks :: int
  fill_qty_lots :: int
  fill_notional :: int
  fill_fee_atoms :: int

text \<open>
  \<open>_ensure_snapshot_ready\<close>: the four values are \<open>None\<close> when a side of the book is
  empty.
\<close>

definition ensure_snapshot_ready ::
  "int option \<Rightarrow> int option \<Rightarrow> int option \<Rightarrow> int option \<Rightarrow> error + BookSnapshot" where
  "ensure_snapshot_ready bpx bqty apx aqty =
     (case (bpx, bqty, apx, aqty) of
        (Some bp, Some bq, Some ap, Some aq) \<Rightarrow>
          if bq \<le> 0 \<or> aq \<le> 0 then Inl (SchemaError ''non-positive top-of-book size'')
          else Inr \<lparr>bid_px = bp, bid_qty = bq, ask_px = ap, ask_qty = aq\<rparr>
      | _ \<Rightarrow> Inl (SchemaError ''missing best bid/ask''))"

text \<open>
  The outcome of \<open>_execute_market_order\<close>: it raises, returns \<open>None\<close> (the order is
  skipped) or returns a \<open>Fill\<close>. The portfolio object is an argument that the call may
  mutate, so the model returns it next to the outcome in every case.
\<close>

datatype outcome = Raised error | Skipped | Filled Fill

definition execute_market_order ::
  "int \<Rightarrow> MarketOrder \<Rightarrow> BookSnapshot \<Rightarrow> Portfolio \<Rightarrow> FixedBpsFeeModel \<Rightarrow>
     bool \<Rightarrow> bool \<Rightarrow> bool \<Rightarrow> outcome \<times> Portfolio" where
  "execute_market_order ts ord book p fm allow_short allow_margin ignore_risk_rejects =
     (let qty = qty_lots ord in
      if qty \<le> 0 then (Raised (SchemaError ''qty_lots must be positive''), p)
      else
        let price = (case order_side ord of BID \<Rightarrow> ask_px book | ASK \<Rightarrow> bid_px book);
            available = (case order_side ord of BID \<Rightarrow> ask_qty book | ASK \<Rightarrow> bid_qty book)
        in
        if qty > available
        then (Raised (SchemaError ''market order exceeds top-of-book size''), p)
        else
          let notional = price * qty in
          (case fee_atoms fm notional of
             Inl e \<Rightarrow> (Raised e, p)
           | Inr fee \<Rightarrow>
               if order_side ord = BID \<and> \<not> allow_margin \<and> cash p < notional + fee
               then (if ignore_risk_rejects then (Skipped, p)
                     else (Raised (SchemaError ''insufficient cash for buy''), p))
               else if order_side ord = ASK \<and> \<not> allow_short \<and> position p < qty
               then (if ignore_risk_rejects then (Skipped, p)
                     else (Raised (SchemaError ''insufficient position for sell''), p))
               else
                 (case apply_fill p (order_side ord) price qty fee allow_short allow_margin of
                    Inl e \<Rightarrow> (Raised e, p)
                  | Inr p' \<Rightarrow>
                      (Filled \<lparr>fill_ts_recv_ns = ts, fill_side = order_side ord,
                               fill_price_ticks = price, fill_qty_lots = qty,
                               fill_notional = notional, fill_fee_atoms = fee\<rparr>, p'))))"

text \<open>
  The risk checks of the engine, as the specification words them: a buy needs
  \<open>cash \<ge> notional + fee\<close> unless margin is allowed, a sell needs \<open>position \<ge> qty\<close>
  unless shorting is allowed.
\<close>

definition risk_ok :: "Side \<Rightarrow> Portfolio \<Rightarrow> int \<Rightarrow> int \<Rightarrow> int \<Rightarrow> bool \<Rightarrow> bool \<Rightarrow> bool" where
  "risk_ok sd p notional fee qty allow_short allow_margin =
     (case sd of
        BID \<Rightarrow> allow_margin \<or> cash p \<ge> notional + fee
      | ASK \<Rightarrow> allow_short \<or> position p \<ge> qty)"

subsection \<open>Returns from an equity curve (\<open>metrics/pnl.py\<close>)\<close>

definition BPS_SCALE :: int where
  "BPS_SCALE = 10000"

definition round_half_even :: "int \<Rightarrow> int \<Rightarrow> error + int" where
  "round_half_even numer denom =
     (if denom \<le> 0 then Inl (SchemaError ''denom must be positive'')
      else
        let sign = (if numer < 0 then - 1 else 1);
            numer1 = (if numer < 0 then - numer else numer);
            q = numer1 div denom;
            r = numer1 mod denom;
            twice_r = r * 2;
            q1 = (if twice_r > denom then q + 1
                  else if twice_r = denom \<and> q mod 2 = 1 then q + 1
                  else q)
        in Inr (sign * q1))"

text \<open>
  The loop of \<open>returns_from_equity\<close> over \<open>equity[1:]\<close>, carrying \<open>prev\<close>. The
  \<open>isinstance(value, int)\<close> check of the source cannot fail on an \<open>int list\<close>.
\<close>

fun returns_loop :: "int \<Rightarrow> int list \<Rightarrow> int \<Rightarrow> error + int list" where
  "returns_loop prev [] initial_cash = Inr []"
| "returns_loop prev (current # rest) initial_cash =
     (case round_half_even ((current - prev) * BPS_SCALE) initial_cash of
        Inl e \<Rightarrow> Inl e
      | Inr bps_value \<Rightarrow>
          (case returns_loop current rest initial_cash of
             Inl e \<Rightarrow> Inl e
           | Inr returns \<Rightarrow> Inr (bps_value # returns)))"

definition returns_from_equity :: "int list \<Rightarrow> int \<Rightarrow> error + int list" where
  "returns_from_equity equity initial_cash =
     (if initial_cash \<le> 0 then Inl (SchemaError ''initial_cash must be positive'')
      else if length equity < 2 then
        Inl (SchemaError ''insufficient equity points for returns'')
      else returns_loop (hd equity) (tl equity) initial_cash)"

text \<open>
  The specification's rounding rule, stated without division: \<open>k\<close> is an integer nearest
  to \<open>numer / denom\<close>, and when two integers are equally near, \<open>k\<close> is the even one.
\<close>

definition nearest_half_even :: "int \<Rightarrow> int \<Rightarrow> int \<Rightarrow> bool" where
  "nearest_half_even k numer denom \<longleftrightarrow>
     2 * \<bar>k * denom - numer\<bar> \<le> denom \<and>
     (2 * \<bar>k * denom - numer\<bar> = denom \<longrightarrow> even k)"

subsection \<open>Packing and unpacking are inverse\<close>

lemma length_le_bytes [simp]: "length (le_bytes n v) = n"
  by (induction n arbitrary: v) simp_all

lemma le_value_le_bytes: "le_value (le_bytes n v) = v mod 256 ^ n"
proof (induction n arbitrary: v)
  case 0
  then show ?case by simp
next
  case (Suc n)
  have "unat (word_of_nat (v mod 256) :: byte) = v mod 256"
    by (simp add: unat_of_nat)
  then have "le_value (le_bytes (Suc n) v) = v mod 256 + 256 * ((v div 256) mod 256 ^ n)"
    by (simp add: Suc.IH)
  also have "\<dots> = v mod 256 ^ Suc n"
    by (simp add: mod_mult2_eq)
  finally show ?case .
qed

lemma le_value_bound: "le_value bs < 256 ^ length bs"
proof (induction bs)
  case Nil
  then show ?case by simp
next
  case (Cons b bs)
  have "unat b < 256" using unsigned_less [of b, where 'a = nat] by simp
  with Cons show ?case by simp
qed

lemma unpack_uint_pack:
  assumes "pack_uint n v = Inr bs"
  shows "unpack_uint bs = v" and "length bs = n"
proof -
  from assms have v: "0 \<le> v" "v < 2 ^ (8 * n)" and bs: "bs = le_bytes n (nat v)"
    by (auto simp: pack_uint_def split: if_splits)
  have p: "(256::nat) ^ n = 2 ^ (8 * n)"
    by (simp add: power_mult)
  have "nat v < 2 ^ (8 * n)" using v by (simp add: nat_less_iff)
  then show "unpack_uint bs = v"
    using v by (simp add: unpack_uint_def bs le_value_le_bytes p)
  show "length bs = n" by (simp add: bs)
qed

lemma unpack_sint_le_bytes:
  assumes "0 < n" "- (2 ^ (8 * n - 1)) \<le> v" "v < 2 ^ (8 * n - 1)"
  shows "unpack_sint (le_bytes n (nat (v mod 2 ^ (8 * n)))) = v"
proof -
  have p: "(256::nat) ^ n = 2 ^ (8 * n)"
    by (simp add: power_mult)
  have half: "(2::int) ^ (8 * n) = 2 * 2 ^ (8 * n - 1)"
    using assms(1) by (metis Suc_pred' mult_pos_pos power_Suc zero_less_numeral)
  have m: "0 \<le> v mod 2 ^ (8 * n)" "v mod 2 ^ (8 * n) < 2 ^ (8 * n)"
    by simp_all
  then have "nat (v mod 2 ^ (8 * n)) < 2 ^ (8 * n)"
    by (simp add: nat_less_iff)
  then have lv: "int (le_value (le_bytes n (nat (v mod 2 ^ (8 * n))))) = v mod 2 ^ (8 * n)"
    by (simp add: le_value_le_bytes p)
  define u where "u = int (le_value (le_bytes n (nat (v mod 2 ^ (8 * n)))))"
  have u: "u = v mod 2 ^ (8 * n)" by (simp add: u_def lv)
  have unfolded: "unpack_sint (le_bytes n (nat (v mod 2 ^ (8 * n))))
      = (if u \<ge> 2 ^ (8 * n - 1) then u - 2 ^ (8 * n) else u)"
    by (simp only: unpack_sint_def Let_def length_le_bytes u_def)
  show ?thesis
  proof (cases "0 \<le> v")
    case True
    then have "u = v" using assms(3) half u by simp
    then show ?thesis using assms(3) unfolded by simp
  next
    case False
    then have "u = v + 2 ^ (8 * n)"
      using assms(2) half u
      by (smt (verit) mod_add_self2 mod_pos_pos_trivial)
    then show ?thesis using assms(2) half False unfolded by simp
  qed
qed

lemma unpack_sint_pack:
  assumes "0 < n" "pack_sint n v = Inr bs"
  shows "unpack_sint bs = v" and "length bs = n"
proof -
  from assms(2) have v: "- (2 ^ (8 * n - 1)) \<le> v" "v < 2 ^ (8 * n - 1)"
    and bs: "bs = le_bytes n (nat (v mod 2 ^ (8 * n)))"
    by (auto simp: pack_sint_def split: if_splits)
  show "unpack_sint bs = v"
    unfolding bs by (rule unpack_sint_le_bytes [OF assms(1) v])
  show "length bs = n" by (simp add: bs)
qed

lemma unpack_sint_le_bytes8:
  "int64 v \<Longrightarrow> unpack_sint (le_bytes 8 (nat (v mod 2 ^ 64))) = v"
  using unpack_sint_le_bytes [of 8 v] by (simp add: int64_def)

subsection \<open>Writing and reading the time index\<close>





lemma length_index_payload [simp]: "length (index_payload es) = 16 * length es"
  by (induction es) (simp_all add: index_payload_def)












subsection \<open>Binary search on a sorted array\<close>

lemma bisect_loop_spec:
  assumes "sorted a" "lo \<le> hi" "hi \<le> length a"
    "\<forall>i < lo. a ! i < x" "\<forall>i. hi \<le> i \<and> i < length a \<longrightarrow> x \<le> a ! i"
  shows "lo \<le> bisect_loop a x lo hi \<and> bisect_loop a x lo hi \<le> hi \<and>
         (\<forall>i < bisect_loop a x lo hi. a ! i < x) \<and>
         (\<forall>i. bisect_loop a x lo hi \<le> i \<and> i < length a \<longrightarrow> x \<le> a ! i)"
  using assms
proof (induction a x lo hi rule: bisect_loop.induct)
  case (1 a x lo hi)
  show ?case
  proof (cases "lo < hi")
    case False
    with "1.prems" have "lo = hi" by simp
    with "1.prems" False show ?thesis by (simp add: bisect_loop.simps [of a x hi hi])
  next
    case True
    define mid where "mid = (lo + hi) div 2"
    have mid: "lo \<le> mid" "mid < hi" using True by (simp_all add: mid_def)
    show ?thesis
    proof (cases "a ! mid < x")
      case lt: True
      have below: "\<forall>i < mid + 1. a ! i < x"
      proof (intro allI impI)
        fix i assume "i < mid + 1"
        then have "i \<le> mid" by simp
        with "1.prems"(1,3) mid have "a ! i \<le> a ! mid"
          by (simp add: sorted_iff_nth_mono)
        with lt show "a ! i < x" by simp
      qed
      from "1.IH"(1) [OF True mid_def lt "1.prems"(1) _ "1.prems"(3) below "1.prems"(5)] mid
      have "mid + 1 \<le> bisect_loop a x (mid + 1) hi \<and> bisect_loop a x (mid + 1) hi \<le> hi \<and>
         (\<forall>i < bisect_loop a x (mid + 1) hi. a ! i < x) \<and>
         (\<forall>i. bisect_loop a x (mid + 1) hi \<le> i \<and> i < length a \<longrightarrow> x \<le> a ! i)"
        by simp
      moreover have "bisect_loop a x lo hi = bisect_loop a x (mid + 1) hi"
        using True lt by (subst bisect_loop.simps) (simp add: mid_def Let_def)
      ultimately show ?thesis using mid by auto
    next
      case ge: False
      have above: "\<forall>i. mid \<le> i \<and> i < length a \<longrightarrow> x \<le> a ! i"
      proof (intro allI impI)
        fix i assume "mid \<le> i \<and> i < length a"
        with "1.prems"(1) have "a ! mid \<le> a ! i"
          by (simp add: sorted_iff_nth_mono)
        with ge show "x \<le> a ! i" by simp
      qed
      have "mid \<le> length a" using mid "1.prems"(3) by simp
      from "1.IH"(2) [OF True mid_def ge "1.prems"(1) mid(1) this "1.prems"(4) above]
      have "lo \<le> bisect_loop a x lo mid \<and> bisect_loop a x lo mid \<le> mid \<and>
         (\<forall>i < bisect_loop a x lo mid. a ! i < x) \<and>
         (\<forall>i. bisect_loop a x lo mid \<le> i \<and> i < length a \<longrightarrow> x \<le> a ! i)" .
      moreover have "bisect_loop a x lo hi = bisect_loop a x lo mid"
        using True ge by (subst bisect_loop.simps) (simp add: mid_def Let_def)
      ultimately show ?thesis using mid by auto
    qed
  qed
qed

lemma bisect_left_spec:
  assumes "sorted a"
  shows "bisect_left a x \<le> length a"
    and "\<forall>i < bisect_left a x. a ! i < x"
    and "\<forall>i. bisect_left a x \<le> i \<and> i < length a \<longrightarrow> x \<le> a ! i"
  using bisect_loop_spec [OF assms, of 0 "length a" x]
  by (simp_all add: bisect_left_def)

subsection \<open>The price arrays stay sorted and in step with the dictionaries\<close>

lemma strict_sorted_imp:
  assumes "sorted_wrt (<) (ps :: int list)"
  shows "sorted ps" and "distinct ps"
  using assms by (simp_all add: strict_sorted_iff)

lemma insert_price_spec:
  assumes "sorted_wrt (<) ps"
  shows "sorted_wrt (<) (insert_price ps p)" and "set (insert_price ps p) = insert p (set ps)"
proof -
  define idx where "idx = bisect_left ps p"
  note s = strict_sorted_imp [OF assms]
  note b = bisect_left_spec [OF s(1), of p, folded idx_def]
  show "sorted_wrt (<) (insert_price ps p)"
  proof (cases "idx < length ps \<and> ps ! idx = p")
    case True
    then show ?thesis using assms by (simp add: insert_price_def idx_def [symmetric])
  next
    case False
    have lo: "\<forall>x \<in> set (take idx ps). x < p"
      using b(1,2) by (auto simp: in_set_conv_nth)
    have hi: "\<forall>y \<in> set (drop idx ps). p < y"
    proof
      fix y assume "y \<in> set (drop idx ps)"
      then obtain j where j: "j < length ps - idx" "y = ps ! (idx + j)"
        by (auto simp: in_set_conv_nth)
      then have r: "idx + j < length ps" "idx < length ps" by simp_all
      with b(3) have "p \<le> ps ! (idx + j)" "p \<le> ps ! idx" by simp_all
      moreover have "ps ! idx \<noteq> p" using False r by simp
      moreover have "ps ! idx \<le> ps ! (idx + j)"
        using s(1) r by (simp add: sorted_iff_nth_mono)
      ultimately show "p < y" using j by simp
    qed
    have cross: "x < y" if "x \<in> set (take idx ps)" "y \<in> set (drop idx ps)" for x y
      using lo hi that by force
    have "sorted_wrt (<) (take idx ps @ [p] @ drop idx ps)"
      using assms lo hi cross
      by (simp add: sorted_wrt_append sorted_wrt_take sorted_wrt_drop)
    then show ?thesis
      using False by (auto simp: insert_price_def idx_def [symmetric] list_insert_def)
  qed
  show "set (insert_price ps p) = insert p (set ps)"
  proof (cases "idx < length ps \<and> ps ! idx = p")
    case True
    then have "p \<in> set ps" by (metis nth_mem)
    with True show ?thesis by (auto simp: insert_price_def idx_def [symmetric])
  next
    case False
    have u: "set (take idx ps) \<union> set (drop idx ps) = set ps"
      by (simp flip: set_append)
    have "set (list_insert ps idx p) = insert p (set (take idx ps) \<union> set (drop idx ps))"
      unfolding list_insert_def by (simp only: set_append set_simps) blast
    then have "set (list_insert ps idx p) = insert p (set ps)"
      by (simp only: u)
    moreover have "insert_price ps p = list_insert ps idx p"
      using False by (auto simp: insert_price_def idx_def [symmetric])
    ultimately show ?thesis by simp
  qed
qed

lemma remove_price_spec:
  assumes "sorted_wrt (<) ps" "p \<in> set ps"
  shows "sorted_wrt (<) (remove_price ps p)" and "set (remove_price ps p) = set ps - {p}"
proof -
  define idx where "idx = bisect_left ps p"
  note s = strict_sorted_imp [OF assms(1)]
  note b = bisect_left_spec [OF s(1), of p, folded idx_def]
  from assms(2) obtain j where j: "j < length ps" "ps ! j = p"
    by (auto simp: in_set_conv_nth)
  have "idx \<le> j"
  proof (rule ccontr)
    assume "\<not> idx \<le> j"
    then have "ps ! j < p" using b(2) by simp
    with j show False by simp
  qed
  then have idx: "idx < length ps" using j by simp
  have "ps ! idx \<le> ps ! j" using s(1) \<open>idx \<le> j\<close> j(1) by (simp add: sorted_iff_nth_mono)
  moreover have "p \<le> ps ! idx" using b(3) idx by simp
  ultimately have at: "ps ! idx = p" using j by simp
  have split: "ps = take idx ps @ p # drop (Suc idx) ps"
    using id_take_nth_drop [OF idx] at by simp
  have rp: "remove_price ps p = take idx ps @ drop (Suc idx) ps"
    using idx at by (simp add: remove_price_def idx_def [symmetric] list_pop_def)
  have "sorted_wrt (<) (take idx ps @ p # drop (Suc idx) ps)"
    using assms(1) split by simp
  then show "sorted_wrt (<) (remove_price ps p)"
    unfolding rp by (auto simp: sorted_wrt_append)
  have "distinct (take idx ps @ p # drop (Suc idx) ps)"
    using s(2) split by simp
  then have "p \<notin> set (take idx ps @ drop (Suc idx) ps)" by auto
  moreover have "set ps = insert p (set (take idx ps @ drop (Suc idx) ps))"
    by (subst split) auto
  ultimately show "set (remove_price ps p) = set ps - {p}"
    unfolding rp by auto
qed

lemma apply_level_inv:
  assumes "side_inv lv ps" "0 \<le> amount" "apply_level lv ps price amount = (lv', ps')"
  shows "side_inv lv' ps'"
proof (cases "amount = 0")
  case zero: True
  show ?thesis
  proof (cases "lv price \<noteq> None")
    case True
    then have "price \<in> set ps" using assms(1) by (auto simp: side_inv_def)
    from remove_price_spec [OF _ this] assms(1)
    have "sorted_wrt (<) (remove_price ps price)" "set (remove_price ps price) = set ps - {price}"
      by (simp_all add: side_inv_def)
    moreover have "lv' = lv(price := None)" "ps' = remove_price ps price"
      using assms(3) zero True by (simp_all add: apply_level_def)
    ultimately show ?thesis using assms(1) by (auto simp: side_inv_def)
  next
    case False
    then show ?thesis using assms zero by (simp add: apply_level_def)
  qed
next
  case False
  with assms(2) have pos: "0 < amount" by simp
  have eq: "lv' = lv(price \<mapsto> amount)" "ps' = insert_price ps price"
    using assms(3) False by (simp_all add: apply_level_def)
  from insert_price_spec [of ps price] assms(1)
  have "sorted_wrt (<) (insert_price ps price)" "set (insert_price ps price) = insert price (set ps)"
    by (simp_all add: side_inv_def)
  then show ?thesis using assms(1) pos unfolding eq by (auto simp: side_inv_def)
qed

lemma apply_update_inv:
  assumes "book_inv b" "apply_update b u = Inr b'"
  shows "book_inv b'" and "reject_crossed b' = reject_crossed b"
proof -
  from assms(2) have am: "0 \<le> amount_lots u"
    by (auto simp: apply_update_def Let_def split: if_splits)
  show "book_inv b'"
  proof (cases "side u")
    case BID
    obtain lv ps where lp: "apply_level (bids b) (bid_prices b) (price_ticks u) (amount_lots u) = (lv, ps)"
      by (cases "apply_level (bids b) (bid_prices b) (price_ticks u) (amount_lots u)")
    with assms(2) BID have "b' = b\<lparr>bids := lv, bid_prices := ps\<rparr>"
      by (auto simp: apply_update_def Let_def split: if_splits)
    moreover from apply_level_inv [OF _ am lp] assms(1) have "side_inv lv ps"
      by (simp add: book_inv_def)
    ultimately show ?thesis using assms(1) by (simp add: book_inv_def)
  next
    case ASK
    obtain lv ps where lp: "apply_level (asks b) (ask_prices b) (price_ticks u) (amount_lots u) = (lv, ps)"
      by (cases "apply_level (asks b) (ask_prices b) (price_ticks u) (amount_lots u)")
    with assms(2) ASK have "b' = b\<lparr>asks := lv, ask_prices := ps\<rparr>"
      by (auto simp: apply_update_def Let_def split: if_splits)
    moreover from apply_level_inv [OF _ am lp] assms(1) have "side_inv lv ps"
      by (simp add: book_inv_def)
    ultimately show ?thesis using assms(1) by (simp add: book_inv_def)
  qed
  show "reject_crossed b' = reject_crossed b"
    using assms(2)
    by (cases "side u") (auto simp: apply_update_def Let_def split: if_splits prod.splits)
qed

lemma apply_updates_inv:
  "book_inv b \<Longrightarrow> book_inv (fst (apply_updates b us)) \<and>
     reject_crossed (fst (apply_updates b us)) = reject_crossed b"
proof (induction us arbitrary: b)
  case Nil
  then show ?case by simp
next
  case (Cons u us)
  show ?case
  proof (cases "apply_update b u")
    case (Inl e)
    then show ?thesis using Cons.prems by simp
  next
    case (Inr b')
    from apply_update_inv [OF Cons.prems Inr] Cons.IH [of b'] Inr
    show ?thesis by simp
  qed
qed

lemma reset_inv: "book_inv (reset b)"
  by (simp add: book_inv_def side_inv_def reset_def)

lemma apply_l2_batch_fst:
  "fst (apply_l2_batch b batch)
     = fst (apply_updates (if resets_book batch then reset b else b) (updates batch))"
  by (simp add: apply_l2_batch_def Let_def split: prod.splits option.splits)

lemma apply_l2_batch_inv:
  assumes "book_inv b"
  shows "book_inv (fst (apply_l2_batch b batch))"
proof -
  have "book_inv (if resets_book batch then reset b else b)"
    using assms reset_inv by simp
  from apply_updates_inv [OF this] show ?thesis
    by (simp only: apply_l2_batch_fst)
qed

lemma reachable_inv: "reachable b \<Longrightarrow> book_inv b"
proof (induction rule: reachable.induct)
  case (init rc)
  then show ?case by (simp add: BookPy_init_def reset_inv)
next
  case (after_reset b)
  then show ?case by (simp add: reset_inv)
next
  case (after_apply b batch)
  then show ?case by (simp add: apply_l2_batch_inv)
qed

lemma strict_sorted_last_Max:
  assumes "sorted_wrt (<) (ps :: int list)" "ps \<noteq> []"
  shows "last ps = Max (set ps)" and "hd ps = Min (set ps)"
proof -
  note s = strict_sorted_imp [OF assms(1)]
  have "\<forall>x \<in> set ps. x \<le> last ps"
    using s(1) assms(2)
    by (metis in_set_conv_nth last_conv_nth sorted_iff_nth_mono Suc_pred' length_greater_0_conv
        less_Suc_eq_le diff_less zero_less_one)
  then show "last ps = Max (set ps)"
    using assms(2) by (intro Max_eqI [symmetric]) simp_all
  have "\<forall>x \<in> set ps. hd ps \<le> x"
    using s(1) assms(2) by (cases ps) auto
  then show "hd ps = Min (set ps)"
    using assms(2) by (intro Min_eqI [symmetric]) simp_all
qed

lemma apply_updates_valid:
  "\<forall>u \<in> set us. valid_update u \<Longrightarrow> snd (apply_updates b us) = None"
proof (induction us arbitrary: b)
  case Nil
  then show ?case by simp
next
  case (Cons u us)
  then have "valid_update u" by simp
  then have "\<exists>b'. apply_update b u = Inr b'"
    by (cases "side u")
      (auto simp: apply_update_def valid_update_def Let_def split: prod.splits)
  then obtain b' where "apply_update b u = Inr b'" by blast
  with Cons show ?case by simp
qed

lemma best_bid_ask_inv:
  assumes "book_inv b"
  shows "\<exists>bp bq ap aq. best_bid_ask b = Inr (bp, bq, ap, aq) \<and>
     (bid_prices b = [] \<longrightarrow> bp = None \<and> bq = None) \<and>
     (bid_prices b \<noteq> [] \<longrightarrow>
        (\<exists>q. bp = Some (Max (set (bid_prices b))) \<and> bq = Some q \<and>
             bids b (Max (set (bid_prices b))) = Some q \<and> 0 < q)) \<and>
     (ask_prices b = [] \<longrightarrow> ap = None \<and> aq = None) \<and>
     (ask_prices b \<noteq> [] \<longrightarrow>
        (\<exists>q. ap = Some (Min (set (ask_prices b))) \<and> aq = Some q \<and>
             asks b (Min (set (ask_prices b))) = Some q \<and> 0 < q))"
proof -
  from assms have bi: "side_inv (bids b) (bid_prices b)" and ai: "side_inv (asks b) (ask_prices b)"
    by (simp_all add: book_inv_def)
  have bid: "\<exists>q. last (bid_prices b) = Max (set (bid_prices b)) \<and>
      bids b (last (bid_prices b)) = Some q \<and> 0 < q" if ne: "bid_prices b \<noteq> []"
  proof -
    have "last (bid_prices b) \<in> dom (bids b)"
      using bi ne by (metis last_in_set side_inv_def)
    then obtain q where "bids b (last (bid_prices b)) = Some q" by blast
    moreover from this bi have "0 < q" by (simp add: side_inv_def)
    moreover have "last (bid_prices b) = Max (set (bid_prices b))"
      using strict_sorted_last_Max(1) [OF _ ne] bi by (simp add: side_inv_def)
    ultimately show ?thesis by blast
  qed
  have ask: "\<exists>q. hd (ask_prices b) = Min (set (ask_prices b)) \<and>
      asks b (hd (ask_prices b)) = Some q \<and> 0 < q" if ne: "ask_prices b \<noteq> []"
  proof -
    have "hd (ask_prices b) \<in> dom (asks b)"
      using ai ne by (metis hd_in_set side_inv_def)
    then obtain q where "asks b (hd (ask_prices b)) = Some q" by blast
    moreover from this ai have "0 < q" by (simp add: side_inv_def)
    moreover have "hd (ask_prices b) = Min (set (ask_prices b))"
      using strict_sorted_last_Max(2) [OF _ ne] ai by (simp add: side_inv_def)
    ultimately show ?thesis by blast
  qed
  show ?thesis
  proof (cases "bid_prices b = []")
    case bn: True
    show ?thesis
    proof (cases "ask_prices b = []")
      case True
      with bn show ?thesis by (simp add: best_bid_ask_def)
    next
      case False
      from ask [OF False] obtain q where "hd (ask_prices b) = Min (set (ask_prices b))"
        "asks b (hd (ask_prices b)) = Some q" "0 < q" by blast
      with bn False show ?thesis by (simp add: best_bid_ask_def dict_get_def)
    qed
  next
    case bne: False
    from bid [OF bne] obtain q where q: "last (bid_prices b) = Max (set (bid_prices b))"
      "bids b (last (bid_prices b)) = Some q" "0 < q" by blast
    show ?thesis
    proof (cases "ask_prices b = []")
      case True
      with bne q show ?thesis by (simp add: best_bid_ask_def dict_get_def)
    next
      case False
      from ask [OF False] obtain q' where "hd (ask_prices b) = Min (set (ask_prices b))"
        "asks b (hd (ask_prices b)) = Some q'" "0 < q'" by blast
      with bne q False show ?thesis by (simp add: best_bid_ask_def dict_get_def)
    qed
  qed
qed

lemma levels_loop_spec:
  assumes "\<forall>p \<in> set ordered. lv p \<noteq> None" "int (length op) < depth"
  shows "levels_loop lv ordered depth op os =
     Inr (op @ take (nat (depth - int (length op))) ordered,
          os @ map (\<lambda>p. the (lv p)) (take (nat (depth - int (length op))) ordered))"
  using assms
proof (induction ordered arbitrary: op os)
  case Nil
  then show ?case by simp
next
  case (Cons p ps)
  then obtain s where s: "lv p = Some s" by auto
  show ?case
  proof (cases "int (length (op @ [p])) \<ge> depth")
    case True
    with Cons.prems(2) have "nat (depth - int (length op)) = 1" by simp
    with True s show ?thesis by (simp add: dict_get_def)
  next
    case False
    then have lt: "int (length (op @ [p])) < depth" by simp
    from Cons.prems(1) have rest: "\<forall>q \<in> set ps. lv q \<noteq> None" by simp
    have k: "nat (depth - int (length op)) = Suc (nat (depth - int (length (op @ [p]))))"
      using lt by simp
    from Cons.IH [OF rest lt, of "os @ [s]"] False s
    show ?thesis by (simp add: dict_get_def k del: length_append)
  qed
qed

lemma levels_inv:
  assumes "book_inv b"
  shows "\<exists>ps ss. levels b sd depth = Inr (ps, ss) \<and>
     ps = take (nat depth) (case sd of BID \<Rightarrow> rev (bid_prices b) | ASK \<Rightarrow> ask_prices b) \<and>
     length ss = length ps \<and>
     (\<forall>i < length ps. (case sd of BID \<Rightarrow> bids b | ASK \<Rightarrow> asks b) (ps ! i) = Some (ss ! i)
        \<and> 0 < ss ! i)"
proof (cases "depth \<le> 0")
  case True
  then show ?thesis by (simp add: levels_def)
next
  case False
  define lv where "lv = (case sd of BID \<Rightarrow> bids b | ASK \<Rightarrow> asks b)"
  define ordered where "ordered = (case sd of BID \<Rightarrow> rev (bid_prices b) | ASK \<Rightarrow> ask_prices b)"
  have inv: "set ordered = dom lv" "\<forall>p s. lv p = Some s \<longrightarrow> 0 < s"
    using assms by (cases sd; simp add: lv_def ordered_def book_inv_def side_inv_def)+
  then have all: "\<forall>p \<in> set ordered. lv p \<noteq> None" by auto
  have run: "levels b sd depth = levels_loop lv ordered depth [] []"
    using False by (cases sd) (simp_all add: levels_def lv_def ordered_def)
  from levels_loop_spec [OF all, of "[]" depth "[]"] False
  have res: "levels_loop lv ordered depth [] [] =
      Inr (take (nat depth) ordered, map (\<lambda>p. the (lv p)) (take (nat depth) ordered))"
    by simp
  have "lv (take (nat depth) ordered ! i) = Some (map (\<lambda>p. the (lv p)) (take (nat depth) ordered) ! i)
      \<and> 0 < map (\<lambda>p. the (lv p)) (take (nat depth) ordered) ! i"
    if "i < length (take (nat depth) ordered)" for i
  proof -
    from that have "take (nat depth) ordered ! i \<in> set ordered"
      by (metis in_set_takeD nth_mem)
    with all obtain s where s: "lv (take (nat depth) ordered ! i) = Some s" by auto
    with inv(2) have "0 < s" by blast
    with s that show ?thesis by simp
  qed
  then show ?thesis
    unfolding run res lv_def [symmetric] ordered_def [symmetric] by simp
qed

text \<open>
  C10. After any finite sequence of \<open>reset\<close> and \<open>apply_l2_batch\<close> calls on a new book,
  each side's price array is strictly increasing (so it has no duplicates), its elements
  are exactly the keys of that side's dictionary, and every stored size is positive.
  Hence \<open>best_bid_ask\<close> never raises, reports the highest bid and the lowest ask with
  their positive sizes (or \<open>None\<close> for an empty side), and \<open>levels\<close> reports the first
  \<open>depth\<close> prices of the side, each with its stored, positive size.
\<close>

theorem reachable_book_consistent:
  assumes "reachable b"
  shows "sorted_wrt (<) (bid_prices b) \<and> distinct (bid_prices b) \<and>
         set (bid_prices b) = dom (bids b) \<and> (\<forall>p s. bids b p = Some s \<longrightarrow> 0 < s) \<and>
         sorted_wrt (<) (ask_prices b) \<and> distinct (ask_prices b) \<and>
         set (ask_prices b) = dom (asks b) \<and> (\<forall>p s. asks b p = Some s \<longrightarrow> 0 < s) \<and>
         (\<exists>bp bq ap aq. best_bid_ask b = Inr (bp, bq, ap, aq) \<and>
            (bid_prices b = [] \<longrightarrow> bp = None \<and> bq = None) \<and>
            (bid_prices b \<noteq> [] \<longrightarrow>
               (\<exists>q. bp = Some (Max (set (bid_prices b))) \<and> bq = Some q \<and>
                    bids b (Max (set (bid_prices b))) = Some q \<and> 0 < q)) \<and>
            (ask_prices b = [] \<longrightarrow> ap = None \<and> aq = None) \<and>
            (ask_prices b \<noteq> [] \<longrightarrow>
               (\<exists>q. ap = Some (Min (set (ask_prices b))) \<and> aq = Some q \<and>
                    asks b (Min (set (ask_prices b))) = Some q \<and> 0 < q))) \<and>
         (\<forall>sd depth. \<exists>ps ss. levels b sd depth = Inr (ps, ss) \<and>
            ps = take (nat depth)
                   (case sd of BID \<Rightarrow> rev (bid_prices b) | ASK \<Rightarrow> ask_prices b) \<and>
            length ss = length ps \<and>
            (\<forall>i < length ps.
               (case sd of BID \<Rightarrow> bids b | ASK \<Rightarrow> asks b) (ps ! i) = Some (ss ! i) \<and>
               0 < ss ! i))"
proof -
  from reachable_inv [OF assms] have inv: "book_inv b" .
  then have "side_inv (bids b) (bid_prices b)" "side_inv (asks b) (ask_prices b)"
    by (simp_all add: book_inv_def)
  then have sides: "sorted_wrt (<) (bid_prices b) \<and> distinct (bid_prices b) \<and>
         set (bid_prices b) = dom (bids b) \<and> (\<forall>p s. bids b p = Some s \<longrightarrow> 0 < s)"
      "sorted_wrt (<) (ask_prices b) \<and> distinct (ask_prices b) \<and>
         set (ask_prices b) = dom (asks b) \<and> (\<forall>p s. asks b p = Some s \<longrightarrow> 0 < s)"
    using strict_sorted_imp(2) by (auto simp: side_inv_def)
  show ?thesis
    using sides best_bid_ask_inv [OF inv] levels_inv [OF inv] by blast
qed

theorem reachable_book_consistent_witness:
  "reachable (fst (apply_l2_batch (BookPy_init True)
       \<lparr>ts_recv_ns = 0, ts_exch_ns = 0, resets_book = True,
        updates = [\<lparr>side = BID, price_ticks = 10, amount_lots = 1, is_snapshot = True\<rparr>,
                   \<lparr>side = BID, price_ticks = 12, amount_lots = 2, is_snapshot = True\<rparr>,
                   \<lparr>side = ASK, price_ticks = 20, amount_lots = 4, is_snapshot = True\<rparr>]\<rparr>)) \<and>
   sorted_wrt (<) (bid_prices (fst (apply_l2_batch (BookPy_init True)
       \<lparr>ts_recv_ns = 0, ts_exch_ns = 0, resets_book = True,
        updates = [\<lparr>side = BID, price_ticks = 10, amount_lots = 1, is_snapshot = True\<rparr>,
                   \<lparr>side = BID, price_ticks = 12, amount_lots = 2, is_snapshot = True\<rparr>,
                   \<lparr>side = ASK, price_ticks = 20, amount_lots = 4, is_snapshot = True\<rparr>]\<rparr>))) \<and>
   best_bid_ask (fst (apply_l2_batch (BookPy_init True)
       \<lparr>ts_recv_ns = 0, ts_exch_ns = 0, resets_book = True,
        updates = [\<lparr>side = BID, price_ticks = 10, amount_lots = 1, is_snapshot = True\<rparr>,
                   \<lparr>side = BID, price_ticks = 12, amount_lots = 2, is_snapshot = True\<rparr>,
                   \<lparr>side = ASK, price_ticks = 20, amount_lots = 4, is_snapshot = True\<rparr>]\<rparr>))
     = Inr (Some 12, Some 2, Some 20, Some 4)"
proof -
  define b where "b = fst (apply_l2_batch (BookPy_init True)
       \<lparr>ts_recv_ns = 0, ts_exch_ns = 0, resets_book = True,
        updates = [\<lparr>side = BID, price_ticks = 10, amount_lots = 1, is_snapshot = True\<rparr>,
                   \<lparr>side = BID, price_ticks = 12, amount_lots = 2, is_snapshot = True\<rparr>,
                   \<lparr>side = ASK, price_ticks = 20, amount_lots = 4, is_snapshot = True\<rparr>]\<rparr>)"
  have r: "reachable b"
    unfolding b_def by (rule reachable.after_apply [OF reachable.init])
  have e: "best_bid_ask b = Inr (Some 12, Some 2, Some 20, Some 4)"
    unfolding b_def
    by (simp add: apply_l2_batch_def BookPy_init_def reset_def apply_update_def
        apply_level_def insert_price_def bisect_left_def bisect_loop.simps list_insert_def
        check_crossed_def best_bid_ask_def dict_get_def Let_def)
  from reachable_book_consistent [OF r] have "sorted_wrt (<) (bid_prices b)" by blast
  with r e show ?thesis unfolding b_def by blast
qed

subsection \<open>Crossed books\<close>

text \<open>
  C8. On a book created with \<open>reject_crossed\<close> on, a batch of valid updates (positive
  price, non-negative amount) is applied in full, after a reset when the batch says so.
  The call then fails with \<open>SchemaError "crossed book"\<close> if and only if both price arrays
  are non-empty and the highest bid price is at least the lowest ask price; it raises no
  other error. Whenever it succeeds and both sides are non-empty, the best bid reported
  by \<open>best_bid_ask\<close> is strictly below the best ask.
\<close>

theorem apply_l2_batch_crossed:
  assumes "reachable b" and "reject_crossed b"
    and "\<forall>u \<in> set (updates batch). valid_update u"
    and "apply_l2_batch b batch = (b', r)"
  shows "apply_updates (if resets_book batch then reset b else b) (updates batch) = (b', None) \<and>
         (r = Some (SchemaError ''crossed book'') \<longleftrightarrow>
            bid_prices b' \<noteq> [] \<and> ask_prices b' \<noteq> [] \<and>
            Max (set (bid_prices b')) \<ge> Min (set (ask_prices b'))) \<and>
         (r \<noteq> Some (SchemaError ''crossed book'') \<longrightarrow> r = None) \<and>
         (r = None \<longrightarrow>
            (\<forall>bp bq ap aq. best_bid_ask b' = Inr (Some bp, bq, Some ap, aq) \<longrightarrow> bp < ap))"
proof -
  define b0 where "b0 = (if resets_book batch then reset b else b)"
  have inv0: "book_inv b0" and rc0: "reject_crossed b0"
    using reachable_inv [OF assms(1)] assms(2) reset_inv
    by (auto simp: b0_def reset_def)
  obtain b1 e1 where run: "apply_updates b0 (updates batch) = (b1, e1)"
    by (cases "apply_updates b0 (updates batch)")
  from apply_updates_valid [OF assms(3), of b0] run have e1: "e1 = None" by simp
  from apply_updates_inv [OF inv0, of "updates batch"] run rc0
  have inv1: "book_inv b1" and rc1: "reject_crossed b1" by simp_all
  from assms(4) run e1 rc1 have res: "b' = b1" "r = check_crossed b1"
    by (auto simp: apply_l2_batch_def b0_def [symmetric])
  from inv1 have sb: "sorted_wrt (<) (bid_prices b1)" and sa: "sorted_wrt (<) (ask_prices b1)"
    by (simp_all add: book_inv_def side_inv_def)
  have mx: "last (bid_prices b1) = Max (set (bid_prices b1))" if "bid_prices b1 \<noteq> []"
    using strict_sorted_last_Max(1) [OF sb that] .
  have mn: "hd (ask_prices b1) = Min (set (ask_prices b1))" if "ask_prices b1 \<noteq> []"
    using strict_sorted_last_Max(2) [OF sa that] .
  have c1: "apply_updates (if resets_book batch then reset b else b) (updates batch) = (b', None)"
    using run e1 res(1) by (simp add: b0_def)
  have c2: "r = Some (SchemaError ''crossed book'') \<longleftrightarrow>
      bid_prices b' \<noteq> [] \<and> ask_prices b' \<noteq> [] \<and>
      Max (set (bid_prices b')) \<ge> Min (set (ask_prices b'))"
    using mx mn by (auto simp: res check_crossed_def)
  have c3: "r \<noteq> Some (SchemaError ''crossed book'') \<longrightarrow> r = None"
    by (simp add: res check_crossed_def)
  have c4: "r = None \<longrightarrow>
      (\<forall>bp bq ap aq. best_bid_ask b' = Inr (Some bp, bq, Some ap, aq) \<longrightarrow> bp < ap)"
  proof (intro impI allI)
    fix bp bq ap aq
    assume rn: "r = None" and bb: "best_bid_ask b' = Inr (Some bp, bq, Some ap, aq)"
    from best_bid_ask_inv [OF inv1] bb res(1)
    have ne: "bid_prices b1 \<noteq> []" "ask_prices b1 \<noteq> []"
      and px: "bp = Max (set (bid_prices b1))" "ap = Min (set (ask_prices b1))"
      by auto
    from rn ne have "last (bid_prices b1) < hd (ask_prices b1)"
      by (auto simp: res(2) check_crossed_def split: if_splits)
    then show "bp < ap" using px mx [OF ne(1)] mn [OF ne(2)] by simp
  qed
  from c1 c2 c3 c4 show ?thesis by blast
qed

theorem apply_l2_batch_crossed_witness:
  "reachable (BookPy_init True) \<and> reject_crossed (BookPy_init True) \<and>
   valid_update \<lparr>side = BID, price_ticks = 10, amount_lots = 1, is_snapshot = True\<rparr> \<and>
   valid_update \<lparr>side = ASK, price_ticks = 9, amount_lots = 1, is_snapshot = True\<rparr> \<and>
   snd (apply_l2_batch (BookPy_init True)
       \<lparr>ts_recv_ns = 0, ts_exch_ns = 0, resets_book = True,
        updates = [\<lparr>side = BID, price_ticks = 10, amount_lots = 1, is_snapshot = True\<rparr>,
                   \<lparr>side = ASK, price_ticks = 9, amount_lots = 1, is_snapshot = True\<rparr>]\<rparr>)
     = Some (SchemaError ''crossed book'') \<and>
   Max (set (bid_prices (fst (apply_l2_batch (BookPy_init True)
       \<lparr>ts_recv_ns = 0, ts_exch_ns = 0, resets_book = True,
        updates = [\<lparr>side = BID, price_ticks = 10, amount_lots = 1, is_snapshot = True\<rparr>,
                   \<lparr>side = ASK, price_ticks = 9, amount_lots = 1, is_snapshot = True\<rparr>]\<rparr>))))
     \<ge> Min (set (ask_prices (fst (apply_l2_batch (BookPy_init True)
       \<lparr>ts_recv_ns = 0, ts_exch_ns = 0, resets_book = True,
        updates = [\<lparr>side = BID, price_ticks = 10, amount_lots = 1, is_snapshot = True\<rparr>,
                   \<lparr>side = ASK, price_ticks = 9, amount_lots = 1, is_snapshot = True\<rparr>]\<rparr>))))"
proof -
  define batch where "batch =
       \<lparr>ts_recv_ns = 0, ts_exch_ns = 0, resets_book = True,
        updates = [\<lparr>side = BID, price_ticks = 10, amount_lots = 1, is_snapshot = True\<rparr>,
                   \<lparr>side = ASK, price_ticks = 9, amount_lots = 1, is_snapshot = True\<rparr>]\<rparr>"
  have r: "reachable (BookPy_init True)" by (rule reachable.init)
  have rc: "reject_crossed (BookPy_init True)" by (simp add: BookPy_init_def reset_def)
  have v: "\<forall>u \<in> set (updates batch). valid_update u"
    by (simp add: batch_def valid_update_def)
  have e: "snd (apply_l2_batch (BookPy_init True) batch) = Some (SchemaError ''crossed book'')"
    unfolding batch_def
    by (simp add: apply_l2_batch_def BookPy_init_def reset_def apply_update_def
        apply_level_def insert_price_def bisect_left_def bisect_loop.simps list_insert_def
        check_crossed_def Let_def)
  have p: "apply_l2_batch (BookPy_init True) batch
      = (fst (apply_l2_batch (BookPy_init True) batch),
         snd (apply_l2_batch (BookPy_init True) batch))"
    by simp
  from apply_l2_batch_crossed [OF r rc v p] e
  have "Max (set (bid_prices (fst (apply_l2_batch (BookPy_init True) batch))))
      \<ge> Min (set (ask_prices (fst (apply_l2_batch (BookPy_init True) batch))))"
    by simp
  with r rc v e show ?thesis unfolding batch_def by simp
qed

subsection \<open>What the writer puts on disk\<close>

lemma length_update_bytes [simp]: "length (update_bytes u) = 24"
  by (simp add: update_bytes_def)

lemma length_concat_update_bytes [simp]:
  "length (concat (map update_bytes us)) = 24 * length us"
  by (induction us) simp_all

lemma length_batch_header_bytes [simp]: "length (batch_header_bytes b) = 24"
  by (simp add: batch_header_bytes_def)

lemma length_batch_payload [simp]: "length (batch_payload b) = 24 + 24 * length (updates b)"
  by (simp add: batch_payload_def)

lemma length_record_header_bytes [simp]: "length (record_header_bytes n) = 8"
  by (simp add: record_header_bytes_def)

lemma length_record_bytes [simp]: "length (record_bytes b) = 32 + 24 * length (updates b)"
  by (simp add: record_bytes_def)

lemma pack_sint64:
  "int64 v \<Longrightarrow> pack_sint 8 v = Inr (le_bytes 8 (nat (v mod 2 ^ 64)))"
  by (simp add: pack_sint_def int64_def)

lemma require_int64_iff: "require_int64 v field = None \<longleftrightarrow> int64 v"
  by (auto simp: require_int64_def int64_def)

lemma pack_l2_update_valid:
  assumes "valid_l2_update u"
  shows "pack_l2_update u = Inr (update_bytes u)"
proof -
  from assms have v: "int64 (price_ticks u)" "int64 (amount_lots u)"
    by (simp_all add: valid_l2_update_def)
  have sv: "pack_uint 1 (side_value (side u)) = Inr (le_bytes 1 (nat (side_value (side u))))"
    by (cases "side u") (simp_all add: pack_uint_def)
  show ?thesis
    unfolding pack_l2_update_def sv pack_sint64 [OF v(1)] pack_sint64 [OF v(2)]
    by (simp add: pack_uint_def update_bytes_def)
qed

lemma pack_updates_valid:
  "list_all valid_l2_update us \<Longrightarrow> pack_updates us = Inr (concat (map update_bytes us))"
proof (induction us)
  case Nil
  then show ?case by simp
next
  case (Cons u us)
  then have vu: "valid_l2_update u" and rest: "list_all valid_l2_update us"
    by simp_all
  from vu have v: "int64 (price_ticks u)" "int64 (amount_lots u)" "0 < price_ticks u"
    "0 \<le> amount_lots u"
    by (simp_all add: valid_l2_update_def)
  have r: "require_int64 (price_ticks u) ''price_ticks'' = None"
    "require_int64 (amount_lots u) ''amount_lots'' = None"
    using v by (simp_all add: require_int64_iff)
  show ?case
    using v(3,4) Cons.IH [OF rest] by (simp add: r pack_l2_update_valid [OF vu])
qed

lemma pack_updates_invalid:
  "\<not> list_all valid_l2_update us \<Longrightarrow> \<exists>e. pack_updates us = Inl e"
proof (induction us)
  case Nil
  then show ?case by simp
next
  case (Cons u us)
  show ?case
  proof (cases "valid_l2_update u")
    case True
    with Cons obtain e where "pack_updates us = Inl e" by auto
    then show ?thesis by (simp split: option.splits sum.splits)
  next
    case False
    then have "require_int64 (price_ticks u) ''price_ticks'' \<noteq> None \<or>
        require_int64 (amount_lots u) ''amount_lots'' \<noteq> None \<or>
        price_ticks u \<le> 0 \<or> amount_lots u < 0"
      by (auto simp: valid_l2_update_def require_int64_iff)
    then show ?thesis by (auto split: option.splits sum.splits)
  qed
qed

lemma pack_l2_batch_header_valid:
  assumes "int64 (ts_recv_ns b)" "int64 (ts_exch_ns b)" "length (updates b) < 2 ^ 32"
  shows "pack_l2_batch_header b (int (length (updates b))) = Inr (batch_header_bytes b)"
  unfolding pack_l2_batch_header_def pack_sint64 [OF assms(1)] pack_sint64 [OF assms(2)]
  using assms(3) by (simp add: pack_uint_def batch_header_bytes_def)

lemma pack_record_header_iff:
  "pack_record_header (int n) =
     (if n \<le> 2 ^ 32 - 1 then Inr (record_header_bytes n) else Inl StructError)"
  by (auto simp: pack_record_header_def pack_uint_def L2_BATCH_def record_header_bytes_def)

lemma payload_len_eq:
  "int L2_BATCH_HEADER_SIZE + int n * int L2_UPDATE_SIZE = int (24 + 24 * n)"
  by (simp add: L2_BATCH_HEADER_SIZE_def L2_UPDATE_SIZE_def)

lemma write_l2_batch_ok:
  assumes "valid_batch b" "fits_record b"
  shows "write_l2_batch (Some content) b = Inr (content @ record_bytes b)"
proof -
  from assms(1) have ts: "int64 (ts_recv_ns b)" "int64 (ts_exch_ns b)" "0 \<le> ts_recv_ns b"
    "0 \<le> ts_exch_ns b" and us: "list_all valid_l2_update (updates b)"
    by (simp_all add: valid_batch_def)
  from assms(2) have n: "24 + 24 * length (updates b) \<le> 2 ^ 32 - 1"
    by (simp add: fits_record_def)
  then have cnt: "length (updates b) < 2 ^ 32" by simp
  have r: "require_int64 (ts_recv_ns b) ''ts_recv_ns'' = None"
    "require_int64 (ts_exch_ns b) ''ts_exch_ns'' = None"
    using ts by (simp_all add: require_int64_iff)
  have al: "int (24 + 24 * length (updates b)) mod 8 = 0"
    by presburger
  have cnt': "\<not> int (length (updates b)) > 2 ^ 32 - 1"
    using cnt by simp
  show ?thesis
    unfolding write_l2_batch_def Let_def payload_len_eq
    using ts(3,4) cnt' n
    by (simp add: r al pack_l2_batch_header_valid [OF ts(1,2) cnt] pack_updates_valid [OF us]
        pack_record_header_iff RECORD_HEADER_SIZE_def record_bytes_def batch_payload_def
        del: of_nat_add of_nat_mult)
qed

lemma write_l2_batch_fail:
  assumes "\<not> (valid_batch b \<and> fits_record b)"
  shows "\<exists>e. write_l2_batch (Some content) b = Inl e"
proof (cases "valid_batch b")
  case False
  then have "require_int64 (ts_recv_ns b) ''ts_recv_ns'' \<noteq> None \<or>
      require_int64 (ts_exch_ns b) ''ts_exch_ns'' \<noteq> None \<or>
      ts_recv_ns b < 0 \<or> ts_exch_ns b < 0 \<or> (\<exists>e. pack_updates (updates b) = Inl e)"
    using pack_updates_invalid [of "updates b"]
    by (auto simp: valid_batch_def require_int64_iff)
  then show ?thesis
    unfolding write_l2_batch_def Let_def
    by (auto split: option.splits sum.splits)
next
  case True
  with assms have big: "\<not> 24 + 24 * length (updates b) \<le> 2 ^ 32 - 1"
    by (simp add: fits_record_def)
  show ?thesis
    unfolding write_l2_batch_def Let_def payload_len_eq
    using big
    by (auto simp: pack_record_header_iff simp del: of_nat_add of_nat_mult
        split: option.splits sum.splits)
qed

subsection \<open>What the reader gets back\<close>

lemma slice_append_left:
  "slice (length pre + a) (length pre + b) (pre @ xs) = slice a b xs"
  by (simp add: slice_def)

lemma unpack_uint_le_bytes:
  "v < 256 ^ n \<Longrightarrow> unpack_uint (le_bytes n v) = int v"
  by (simp add: unpack_uint_def le_value_le_bytes)

lemma file_read_at:
  "file_read (pre @ xs @ rest) (length pre) (length xs) = (xs, length pre + length xs)"
  by (simp add: file_read_def)

lemma update_fields:
  assumes "valid_l2_update u"
  shows "unpack_uint (slice 0 1 (update_bytes u @ rest)) = side_value (side u)"
    and "unpack_uint (slice 1 2 (update_bytes u @ rest)) = (if is_snapshot u then 1 else 0)"
    and "unpack_uint (slice 2 4 (update_bytes u @ rest)) = 0"
    and "unpack_sint (slice 4 12 (update_bytes u @ rest)) = price_ticks u"
    and "unpack_sint (slice 12 20 (update_bytes u @ rest)) = amount_lots u"
    and "unpack_uint (slice 20 24 (update_bytes u @ rest)) = 0"
proof -
  from assms have v: "int64 (price_ticks u)" "int64 (amount_lots u)"
    by (simp_all add: valid_l2_update_def)
  have s0: "slice 0 1 (update_bytes u @ rest) = le_bytes 1 (nat (side_value (side u)))"
    and s1: "slice 1 2 (update_bytes u @ rest) = le_bytes 1 (if is_snapshot u then 1 else 0)"
    and s2: "slice 2 4 (update_bytes u @ rest) = le_bytes 2 0"
    and s3: "slice 4 12 (update_bytes u @ rest) = le_bytes 8 (nat (price_ticks u mod 2 ^ 64))"
    and s4: "slice 12 20 (update_bytes u @ rest) = le_bytes 8 (nat (amount_lots u mod 2 ^ 64))"
    and s5: "slice 20 24 (update_bytes u @ rest) = le_bytes 4 0"
    unfolding slice_def update_bytes_def by simp_all
  show "unpack_uint (slice 0 1 (update_bytes u @ rest)) = side_value (side u)"
    unfolding s0 by (cases "side u") (simp_all add: unpack_uint_def)
  show "unpack_uint (slice 1 2 (update_bytes u @ rest)) = (if is_snapshot u then 1 else 0)"
    unfolding s1 by (simp add: unpack_uint_def)
  show "unpack_uint (slice 2 4 (update_bytes u @ rest)) = 0"
    unfolding s2 by (simp add: unpack_uint_le_bytes)
  show "unpack_sint (slice 4 12 (update_bytes u @ rest)) = price_ticks u"
    unfolding s3 by (rule unpack_sint_le_bytes8 [OF v(1)])
  show "unpack_sint (slice 12 20 (update_bytes u @ rest)) = amount_lots u"
    unfolding s4 by (rule unpack_sint_le_bytes8 [OF v(2)])
  show "unpack_uint (slice 20 24 (update_bytes u @ rest)) = 0"
    unfolding s5 by (simp add: unpack_uint_le_bytes)
qed

lemma decode_updates_step:
  assumes "valid_l2_update u"
  shows "decode_updates (pre @ update_bytes u @ rest) (Suc n) (length pre) acc
       = decode_updates (pre @ update_bytes u @ rest) n (length pre + 24) (acc @ [u])"
proof -
  note f = update_fields [OF assms, of rest]
  have sl: "slice (length pre) (length pre + 1) (pre @ update_bytes u @ rest)
        = slice 0 1 (update_bytes u @ rest)"
    "slice (length pre + 1) (length pre + 2) (pre @ update_bytes u @ rest)
        = slice 1 2 (update_bytes u @ rest)"
    "slice (length pre + 2) (length pre + 4) (pre @ update_bytes u @ rest)
        = slice 2 4 (update_bytes u @ rest)"
    "slice (length pre + 4) (length pre + 12) (pre @ update_bytes u @ rest)
        = slice 4 12 (update_bytes u @ rest)"
    "slice (length pre + 12) (length pre + 20) (pre @ update_bytes u @ rest)
        = slice 12 20 (update_bytes u @ rest)"
    "slice (length pre + 20) (length pre + 24) (pre @ update_bytes u @ rest)
        = slice 20 24 (update_bytes u @ rest)"
    by (simp_all add: slice_def)
  have eta: "\<lparr>side = side u, price_ticks = price_ticks u, amount_lots = amount_lots u,
      is_snapshot = is_snapshot u\<rparr> = u"
    by (cases u) simp
  have sd: "(if side_value (side u) = 0 then BID else ASK) = side u"
    by (cases "side u") simp_all
  have sv: "side_value (side u) = 0 \<or> side_value (side u) = 1"
    by (cases "side u") simp_all
  from assms have pa: "0 < price_ticks u" "0 \<le> amount_lots u"
    by (simp_all add: valid_l2_update_def)
  show ?thesis
    apply (subst decode_updates.simps)
    unfolding Let_def sl f L2_UPDATE_SIZE_def
    using sv pa sd
    by (cases u) auto
qed

lemma decode_updates_all:
  assumes "list_all valid_l2_update us"
  shows "decode_updates (pre @ concat (map update_bytes us)) (length us) (length pre) acc
       = Inr (acc @ us)"
  using assms
proof (induction us arbitrary: pre acc)
  case Nil
  then show ?case by simp
next
  case (Cons u us)
  then have vu: "valid_l2_update u" and rest: "list_all valid_l2_update us" by simp_all
  have "decode_updates (pre @ concat (map update_bytes (u # us))) (length (u # us)) (length pre) acc
      = decode_updates (pre @ update_bytes u @ concat (map update_bytes us)) (length us)
          (length pre + 24) (acc @ [u])"
    using decode_updates_step [OF vu, of pre "concat (map update_bytes us)" "length us" acc]
    by simp
  also have "\<dots> = decode_updates ((pre @ update_bytes u) @ concat (map update_bytes us))
      (length us) (length (pre @ update_bytes u)) (acc @ [u])"
    by simp
  also have "\<dots> = Inr ((acc @ [u]) @ us)"
    by (rule Cons.IH [OF rest])
  finally show ?case by simp
qed

lemma batch_header_fields:
  assumes "int64 (ts_recv_ns b)" "int64 (ts_exch_ns b)" "length (updates b) < 2 ^ 32"
  shows "unpack_sint (slice 0 8 (batch_header_bytes b @ rest)) = ts_recv_ns b"
    and "unpack_sint (slice 8 16 (batch_header_bytes b @ rest)) = ts_exch_ns b"
    and "unpack_uint (slice 16 17 (batch_header_bytes b @ rest)) = (if resets_book b then 1 else 0)"
    and "unpack_uint (slice 20 24 (batch_header_bytes b @ rest)) = int (length (updates b))"
proof -
  have s0: "slice 0 8 (batch_header_bytes b @ rest) = le_bytes 8 (nat (ts_recv_ns b mod 2 ^ 64))"
    and s1: "slice 8 16 (batch_header_bytes b @ rest) = le_bytes 8 (nat (ts_exch_ns b mod 2 ^ 64))"
    and s2: "slice 16 17 (batch_header_bytes b @ rest) = le_bytes 1 (if resets_book b then 1 else 0)"
    and s3: "slice 20 24 (batch_header_bytes b @ rest) = le_bytes 4 (length (updates b))"
    unfolding slice_def batch_header_bytes_def by simp_all
  show "unpack_sint (slice 0 8 (batch_header_bytes b @ rest)) = ts_recv_ns b"
    unfolding s0 by (rule unpack_sint_le_bytes8 [OF assms(1)])
  show "unpack_sint (slice 8 16 (batch_header_bytes b @ rest)) = ts_exch_ns b"
    unfolding s1 by (rule unpack_sint_le_bytes8 [OF assms(2)])
  show "unpack_uint (slice 16 17 (batch_header_bytes b @ rest)) = (if resets_book b then 1 else 0)"
    unfolding s2 by (simp add: unpack_uint_def)
  show "unpack_uint (slice 20 24 (batch_header_bytes b @ rest)) = int (length (updates b))"
    unfolding s3 using assms(3) by (simp add: unpack_uint_le_bytes)
qed

lemma decode_l2_payload_roundtrip:
  assumes "valid_batch b" "fits_record b"
  shows "decode_l2_payload (batch_payload b) = Inr b"
proof -
  from assms(1) have ts: "int64 (ts_recv_ns b)" "int64 (ts_exch_ns b)" "0 \<le> ts_recv_ns b"
    "0 \<le> ts_exch_ns b" and us: "list_all valid_l2_update (updates b)"
    by (simp_all add: valid_batch_def)
  from assms(2) have cnt: "length (updates b) < 2 ^ 32"
    by (simp add: fits_record_def)
  note f = batch_header_fields [OF ts(1,2) cnt, of "concat (map update_bytes (updates b))",
      folded batch_payload_def]
  have d: "decode_updates (batch_payload b) (length (updates b)) 24 [] = Inr (updates b)"
    using decode_updates_all [OF us, of "batch_header_bytes b" "[]"]
    by (simp add: batch_payload_def)
  have eta: "\<lparr>ts_recv_ns = ts_recv_ns b, ts_exch_ns = ts_exch_ns b,
      resets_book = resets_book b, updates = updates b\<rparr> = b"
    by (cases b) simp
  show ?thesis
    using ts(3,4)
    by (cases "resets_book b")
      (simp_all add: decode_l2_payload_def f Let_def L2_BATCH_HEADER_SIZE_def
        L2_UPDATE_SIZE_def d eta)
qed

lemma unpack_record_header_bytes:
  assumes "n < 2 ^ 32"
  shows "unpack_record_header (record_header_bytes n) = Inr (L2_BATCH, int n)"
proof -
  have s: "slice 0 1 (record_header_bytes n) = le_bytes 1 1"
    "slice 1 2 (record_header_bytes n) = le_bytes 1 0"
    "slice 2 4 (record_header_bytes n) = le_bytes 2 0"
    "slice 4 8 (record_header_bytes n) = le_bytes 4 n"
    unfolding slice_def record_header_bytes_def by simp_all
  show ?thesis
    unfolding unpack_record_header_def s Let_def
    using assms by (simp add: unpack_uint_def le_value_le_bytes RECORD_HEADER_SIZE_def L2_BATCH_def)
qed

lemma iter_loop_record:
  assumes "valid_batch b" "fits_record b"
  shows "iter_loop (pre @ record_bytes b @ rest) (length pre) acc
       = iter_loop (pre @ record_bytes b @ rest) (length pre + length (record_bytes b)) (acc @ [b])"
proof -
  define n where "n = 24 + 24 * length (updates b)"
  from assms(2) have n: "n < 2 ^ 32" by (simp add: fits_record_def n_def)
  have content: "pre @ record_bytes b @ rest
      = pre @ record_header_bytes n @ (batch_payload b @ rest)"
    by (simp add: record_bytes_def n_def)
  have r1: "file_read (pre @ record_bytes b @ rest) (length pre) 8
      = (record_header_bytes n, length pre + 8)"
    unfolding content
    using file_read_at [of pre "record_header_bytes n" "batch_payload b @ rest"]
    by simp
  have r2: "file_read (pre @ record_bytes b @ rest) (length pre + 8) (nat (int n))
      = (batch_payload b, length pre + 8 + n)"
    unfolding nat_int content
    using file_read_at [of "pre @ record_header_bytes n" "batch_payload b" rest]
    by (simp add: n_def)
  have al: "int n mod 8 = 0" unfolding n_def by presburger
  have ne: "record_header_bytes n \<noteq> []"
    by (metis length_record_header_bytes list.size(3) zero_neq_numeral)
  have len: "length pre + 8 + n = length pre + length (record_bytes b)"
    by (simp add: n_def)
  show ?thesis
    apply (subst iter_loop.simps)
    unfolding RECORD_HEADER_SIZE_def
    apply (simp only: r1 prod.case Let_def ne if_False length_record_header_bytes
        unpack_record_header_bytes [OF n]
        sum.case al r2 simp_thms length_batch_payload n_def [symmetric]
        decode_l2_payload_roundtrip [OF assms] len)
    apply simp
    done
qed

lemma iter_loop_records:
  assumes "\<forall>b \<in> set bs. valid_batch b \<and> fits_record b"
  shows "iter_loop (pre @ concat (map record_bytes bs)) (length pre) acc
       = (acc @ bs, None, length (pre @ concat (map record_bytes bs)))"
  using assms
proof (induction bs arbitrary: pre acc)
  case Nil
  show ?case
    by (subst iter_loop.simps) (simp add: file_read_def)
next
  case (Cons b bs)
  then have vb: "valid_batch b" "fits_record b"
    and rest: "\<forall>x \<in> set bs. valid_batch x \<and> fits_record x"
    by simp_all
  have "iter_loop (pre @ concat (map record_bytes (b # bs))) (length pre) acc
      = iter_loop (pre @ record_bytes b @ concat (map record_bytes bs)) (length pre) acc"
    by simp
  also have "\<dots> = iter_loop (pre @ record_bytes b @ concat (map record_bytes bs))
      (length pre + length (record_bytes b)) (acc @ [b])"
    by (rule iter_loop_record [OF vb])
  also have "\<dots> = iter_loop ((pre @ record_bytes b) @ concat (map record_bytes bs))
      (length (pre @ record_bytes b)) (acc @ [b])"
    by simp
  also have "\<dots> = ((acc @ [b]) @ bs, None,
      length ((pre @ record_bytes b) @ concat (map record_bytes bs)))"
    by (rule Cons.IH [OF rest])
  finally show ?case by simp
qed

subsection \<open>Writer to reader round trip\<close>

lemma write_batches_ok:
  assumes "\<forall>b \<in> set bs. valid_batch b \<and> fits_record b"
  shows "write_batches content entries bs
       = Inr (content @ concat (map record_bytes bs),
              entries @ batch_entries (length content) bs)"
  using assms
proof (induction bs arbitrary: content entries)
  case Nil
  then show ?case by simp
next
  case (Cons b bs)
  then have vb: "valid_batch b" "fits_record b"
    and rest: "\<forall>x \<in> set bs. valid_batch x \<and> fits_record x"
    by simp_all
  show ?case
    using Cons.IH [OF rest, of "content @ record_bytes b"]
    by (simp add: writer_tell_def write_l2_batch_ok [OF vb] del: length_record_bytes)
qed

lemma pack_header_bytes:
  assumes "pack_header 0 exchange_id symbol_id quantizer_hash = Inr hdr"
  shows "\<exists>qh. length qh = 32 \<and>
           hdr = MAGIC @ le_bytes 1 1 @ le_bytes 1 1 @ le_bytes 2 0 @ le_bytes 4 0
                   @ le_bytes 8 (nat exchange_id) @ le_bytes 8 (nat symbol_id) @ qh"
  using assms
  by (auto simp: pack_header_def Let_def pack_uint_def VERSION_def ENDIAN_LITTLE_def
      split: if_splits option.splits)

lemma length_MAGIC [simp]: "length MAGIC = 8"
  by (simp add: MAGIC_def ascii_bytes_def)

lemma read_header_written:
  assumes "pack_header 0 exchange_id symbol_id quantizer_hash = Inr hdr"
  shows "length hdr = 64" and "\<exists>h. read_header (hdr @ rest) 0 = Inr (h, 64)"
proof -
  from pack_header_bytes [OF assms] obtain qh where qh: "length qh = 32"
    and hdr: "hdr = MAGIC @ le_bytes 1 1 @ le_bytes 1 1 @ le_bytes 2 0 @ le_bytes 4 0
                   @ le_bytes 8 (nat exchange_id) @ le_bytes 8 (nat symbol_id) @ qh"
    by blast
  show len: "length hdr = 64" by (simp add: hdr qh)
  define base where "base = MAGIC @ le_bytes 1 1 @ le_bytes 1 1 @ le_bytes 2 0 @ le_bytes 4 0"
  define extra where "extra = le_bytes 8 (nat exchange_id) @ le_bytes 8 (nat symbol_id) @ qh"
  have split: "hdr @ rest = base @ extra @ rest" by (simp add: hdr base_def extra_def)
  have lb: "length base = 16" and le: "length extra = 48"
    by (simp_all add: base_def extra_def qh)
  have r1: "file_read (hdr @ rest) 0 16 = (base, 16)"
    using file_read_at [of "[]" base "extra @ rest"]
    by (simp add: split lb)
  have r2: "file_read (hdr @ rest) 16 48 = (extra, 64)"
    using file_read_at [of base extra rest]
    by (simp add: split lb le)
  have f: "slice 0 8 base = MAGIC" "unpack_uint (slice 8 9 base) = 1"
    "unpack_uint (slice 9 10 base) = 1" "unpack_uint (slice 12 16 base) = 0"
    by (simp_all add: base_def slice_def unpack_uint_def le_value_le_bytes)
  have ne: "base \<noteq> []" using lb by auto
  show "\<exists>h. read_header (hdr @ rest) 0 = Inr (h, 64)"
    unfolding read_header_def HEADER_BASE_SIZE_def HEADER_V1_EXTRA_SIZE_def r1 r2
      prod.case Let_def
    using ne
    by (simp add: f lb le VERSION_def ENDIAN_LITTLE_def)
qed

lemma write_l2_batch_too_long:
  assumes "valid_batch b" "length (updates b) < 2 ^ 32" "\<not> fits_record b"
  shows "write_l2_batch (Some content) b = Inl StructError"
proof -
  from assms(1) have ts: "int64 (ts_recv_ns b)" "int64 (ts_exch_ns b)" "0 \<le> ts_recv_ns b"
    "0 \<le> ts_exch_ns b" and us: "list_all valid_l2_update (updates b)"
    by (simp_all add: valid_batch_def)
  have r: "require_int64 (ts_recv_ns b) ''ts_recv_ns'' = None"
    "require_int64 (ts_exch_ns b) ''ts_exch_ns'' = None"
    using ts by (simp_all add: require_int64_iff)
  have al: "int (24 + 24 * length (updates b)) mod 8 = 0"
    by presburger
  have cnt': "\<not> int (length (updates b)) > 2 ^ 32 - 1"
    using assms(2) by simp
  from assms(3) have big: "\<not> 24 + 24 * length (updates b) \<le> 2 ^ 32 - 1"
    by (simp add: fits_record_def)
  show ?thesis
    unfolding write_l2_batch_def Let_def payload_len_eq
    using ts(3,4) cnt' big
    by (simp add: r al pack_l2_batch_header_valid [OF ts(1,2) assms(2)]
        pack_updates_valid [OF us] pack_record_header_iff
        del: of_nat_add of_nat_mult)
qed

text \<open>
  C2 (as amended). \<open>write_l2_batch\<close> accepts a batch exactly when the batch passes the
  writer's validation and its payload fits the 32-bit length field of the record header.
  For such a batch the written record, decoded by the reader, is the original batch; and
  for every sequence of such batches written after the header, the reader opened on the
  file yields exactly the sequence, in file order, with no error.
\<close>

theorem evlog_roundtrip:
  "((\<exists>content'. write_l2_batch (Some content) b = Inr content') \<longleftrightarrow>
      valid_batch b \<and> fits_record b) \<and>
   (valid_batch b \<and> fits_record b \<longrightarrow>
      (\<exists>rec. write_l2_batch (Some content) b = Inr (content @ rec) \<and>
             decode_l2_payload (drop RECORD_HEADER_SIZE rec) = Inr b)) \<and>
   (EvlogWriter_enter exchange_id symbol_id quantizer_hash = Inr content0 \<and>
    (\<forall>x \<in> set batches. valid_batch x \<and> fits_record x) \<longrightarrow>
      (\<exists>file entries r0 r1 r2.
          write_batches content0 [] batches = Inr (file, entries) \<and>
          EvlogReader_init file None = Inr r0 \<and>
          EvlogReader_enter r0 = Inr r1 \<and>
          iter_l2_batches r1 = Inr (batches, None, r2)))"
proof (intro conjI impI)
  show "(\<exists>content'. write_l2_batch (Some content) b = Inr content') \<longleftrightarrow>
      valid_batch b \<and> fits_record b"
    using write_l2_batch_ok [of b content] write_l2_batch_fail [of b content]
    by fastforce
next
  assume a: "valid_batch b \<and> fits_record b"
  then have "write_l2_batch (Some content) b = Inr (content @ record_bytes b)"
    by (simp add: write_l2_batch_ok)
  moreover have "decode_l2_payload (drop RECORD_HEADER_SIZE (record_bytes b)) = Inr b"
    using a by (simp add: record_bytes_def RECORD_HEADER_SIZE_def decode_l2_payload_roundtrip)
  ultimately show "\<exists>rec. write_l2_batch (Some content) b = Inr (content @ rec) \<and>
             decode_l2_payload (drop RECORD_HEADER_SIZE rec) = Inr b"
    by blast
next
  assume a: "EvlogWriter_enter exchange_id symbol_id quantizer_hash = Inr content0 \<and>
    (\<forall>x \<in> set batches. valid_batch x \<and> fits_record x)"
  then have ph: "pack_header 0 exchange_id symbol_id quantizer_hash = Inr content0"
    by (auto simp: EvlogWriter_enter_def split: sum.splits)
  define logfile where "logfile = content0 @ concat (map record_bytes batches)"
  from a have w: "write_batches content0 [] batches
      = Inr (logfile, batch_entries (length content0) batches)"
    by (simp add: write_batches_ok logfile_def)
  have len: "length content0 = 64" by (rule read_header_written(1) [OF ph])
  from read_header_written(2) [OF ph, of "concat (map record_bytes batches)"]
  obtain h where rh: "read_header logfile 0 = Inr (h, 64)"
    unfolding logfile_def by blast
  define r0 where "r0 = \<lparr>rd_content = logfile, rd_pos = None, rd_header = None,
      rd_index = None, rd_index_ts = None\<rparr>"
  define r1 where "r1 = r0\<lparr>rd_pos := Some 64, rd_header := Some h\<rparr>"
  have i: "EvlogReader_init logfile None = Inr r0"
    by (simp add: EvlogReader_init_def r0_def)
  have e: "EvlogReader_enter r0 = Inr r1"
    by (simp add: EvlogReader_enter_def r0_def r1_def rh)
  have "iter_loop logfile 64 [] = ([] @ batches, None, length logfile)"
    using iter_loop_records [of batches content0 "[]"] a
    by (simp add: logfile_def len)
  then have "iter_l2_batches r1 = Inr (batches, None, r1\<lparr>rd_pos := Some (length logfile)\<rparr>)"
    by (simp add: iter_l2_batches_def r1_def r0_def)
  with w i e show "\<exists>file entries r0 r1 r2.
          write_batches content0 [] batches = Inr (file, entries) \<and>
          EvlogReader_init file None = Inr r0 \<and>
          EvlogReader_enter r0 = Inr r1 \<and>
          iter_l2_batches r1 = Inr (batches, None, r2)"
    by blast
qed

theorem evlog_roundtrip_witness:
  "valid_batch \<lparr>ts_recv_ns = 1000, ts_exch_ns = 900, resets_book = True,
      updates = [\<lparr>side = BID, price_ticks = 10, amount_lots = 1, is_snapshot = True\<rparr>,
                 \<lparr>side = ASK, price_ticks = 11, amount_lots = 2, is_snapshot = True\<rparr>]\<rparr> \<and>
   fits_record \<lparr>ts_recv_ns = 1000, ts_exch_ns = 900, resets_book = True,
      updates = [\<lparr>side = BID, price_ticks = 10, amount_lots = 1, is_snapshot = True\<rparr>,
                 \<lparr>side = ASK, price_ticks = 11, amount_lots = 2, is_snapshot = True\<rparr>]\<rparr> \<and>
   (\<exists>content0 file entries r0 r1 r2.
      EvlogWriter_enter 7 9 None = Inr content0 \<and>
      write_batches content0 []
        [\<lparr>ts_recv_ns = 1000, ts_exch_ns = 900, resets_book = True,
          updates = [\<lparr>side = BID, price_ticks = 10, amount_lots = 1, is_snapshot = True\<rparr>,
                     \<lparr>side = ASK, price_ticks = 11, amount_lots = 2, is_snapshot = True\<rparr>]\<rparr>]
        = Inr (file, entries) \<and>
      EvlogReader_init file None = Inr r0 \<and>
      EvlogReader_enter r0 = Inr r1 \<and>
      iter_l2_batches r1
        = Inr ([\<lparr>ts_recv_ns = 1000, ts_exch_ns = 900, resets_book = True,
                 updates = [\<lparr>side = BID, price_ticks = 10, amount_lots = 1, is_snapshot = True\<rparr>,
                            \<lparr>side = ASK, price_ticks = 11, amount_lots = 2, is_snapshot = True\<rparr>]\<rparr>],
                None, r2))"
proof -
  define b where "b = \<lparr>ts_recv_ns = 1000, ts_exch_ns = 900, resets_book = True,
      updates = [\<lparr>side = BID, price_ticks = 10, amount_lots = 1, is_snapshot = True\<rparr>,
                 \<lparr>side = ASK, price_ticks = 11, amount_lots = 2, is_snapshot = True\<rparr>]\<rparr>"
  have v: "valid_batch b" by (simp add: b_def valid_batch_def valid_l2_update_def int64_def)
  have f: "fits_record b" by (simp add: b_def fits_record_def)
  obtain content0 where w: "EvlogWriter_enter 7 9 None = Inr content0"
    by (simp add: EvlogWriter_enter_def pack_header_def pack_uint_def VERSION_def
        ENDIAN_LITTLE_def)
  from evlog_roundtrip [of "[]" b 7 9 None content0 "[b]"] v f w
  have "\<exists>file entries r0 r1 r2.
      write_batches content0 [] [b] = Inr (file, entries) \<and>
      EvlogReader_init file None = Inr r0 \<and>
      EvlogReader_enter r0 = Inr r1 \<and>
      iter_l2_batches r1 = Inr ([b], None, r2)"
    by simp
  with v f w show ?thesis unfolding b_def by blast
qed

text \<open>
  The claim as first stated fails on a batch that passes every check the writer makes but
  has 178956970 updates: its payload of \<open>24 + 24 * 178956970 = 4294967304\<close> bytes does
  not fit the 32-bit length field, \<open>struct.pack\<close> raises, and no record is written.
\<close>

theorem evlog_roundtrip_counterexample:
  "valid_batch \<lparr>ts_recv_ns = 0, ts_exch_ns = 0, resets_book = False,
      updates = replicate 178956970
        \<lparr>side = BID, price_ticks = 1, amount_lots = 0, is_snapshot = False\<rparr>\<rparr> \<and>
   write_l2_batch (Some [])
     \<lparr>ts_recv_ns = 0, ts_exch_ns = 0, resets_book = False,
      updates = replicate 178956970
        \<lparr>side = BID, price_ticks = 1, amount_lots = 0, is_snapshot = False\<rparr>\<rparr>
     = Inl StructError"
proof -
  define b where "b = \<lparr>ts_recv_ns = 0, ts_exch_ns = 0, resets_book = False,
      updates = replicate 178956970
        \<lparr>side = BID, price_ticks = 1, amount_lots = 0, is_snapshot = False\<rparr>\<rparr>"
  have v: "valid_batch b"
    by (simp add: b_def valid_batch_def list_all_iff valid_l2_update_def int64_def)
  have n: "length (updates b) < 2 ^ 32" by (simp add: b_def)
  have nf: "\<not> fits_record b" by (simp add: b_def fits_record_def)
  from write_l2_batch_too_long [OF v n nf, of "[]"] v show ?thesis
    unfolding b_def by blast
qed

subsection \<open>Seeking by time\<close>

lemma length_batch_entries [simp]: "length (batch_entries off bs) = length bs"
  by (induction bs arbitrary: off) simp_all

lemma map_ts_batch_entries [simp]:
  "map entry_ts_recv_ns (batch_entries off bs) = map ts_recv_ns bs"
  by (induction bs arbitrary: off) simp_all





subsection \<open>Risk checks of the execution engine\<close>

lemma fee_atoms_valid:
  assumes "FixedBpsFeeModel_init b = Inr fm" "0 \<le> notional"
  shows "fee_atoms fm notional = Inr ((notional * b) div 10000)"
    and "0 \<le> (notional * b) div 10000"
proof -
  from assms(1) have b: "bps fm = b" "0 \<le> b"
    by (auto simp: FixedBpsFeeModel_init_def split: if_splits)
  show "fee_atoms fm notional = Inr ((notional * b) div 10000)"
    using assms(2) b by (simp add: fee_atoms_def)
  show "0 \<le> (notional * b) div 10000"
    using assms(2) b by (simp add: pos_imp_zdiv_nonneg_iff)
qed

lemma execute_not_filled_unchanged:
  assumes "execute_market_order ts ord book p fm a_short a_margin irr = (out, p')"
    and "\<forall>f. out \<noteq> Filled f"
  shows "p' = p"
  using assms
  by (auto simp: execute_market_order_def Let_def split: if_splits sum.splits)

text \<open>
  C3. For a market order with a positive quantity that the opposite top of book can fill,
  at a positive price and with a valid fee model: a buy passes the risk check iff
  \<open>cash \<ge> notional + fee\<close> or margin is allowed, a sell iff \<open>position \<ge> qty\<close> or
  shorting is allowed. When the check fails there is no fill and the portfolio is returned
  unchanged; the order is skipped silently iff \<open>ignore_risk_rejects\<close> is set and the call
  raises otherwise. When the check passes, the fill carries \<open>notional = price * qty\<close> and
  the fee, and cash and position change by exactly these amounts.
\<close>

theorem execute_market_order_risk:
  assumes fm: "FixedBpsFeeModel_init b = Inr fm"
    and qty: "0 < qty_lots ord"
    and price: "price = (case order_side ord of BID \<Rightarrow> ask_px book | ASK \<Rightarrow> bid_px book)"
    and avail: "qty_lots ord \<le> (case order_side ord of BID \<Rightarrow> ask_qty book | ASK \<Rightarrow> bid_qty book)"
    and pos: "0 < price"
    and notional: "notional = price * qty_lots ord"
    and fee: "fee = (notional * b) div 10000"
    and run: "execute_market_order ts ord book p fm a_short a_margin irr = (out, p')"
  shows "(\<not> risk_ok (order_side ord) p notional fee (qty_lots ord) a_short a_margin \<longrightarrow>
            p' = p \<and> (\<forall>f. out \<noteq> Filled f) \<and>
            (out = Skipped \<longleftrightarrow> irr) \<and>
            (\<not> irr \<longrightarrow> (\<exists>msg. out = Raised (SchemaError msg)))) \<and>
         (risk_ok (order_side ord) p notional fee (qty_lots ord) a_short a_margin \<longrightarrow>
            out = Filled \<lparr>fill_ts_recv_ns = ts, fill_side = order_side ord,
                          fill_price_ticks = price, fill_qty_lots = qty_lots ord,
                          fill_notional = notional, fill_fee_atoms = fee\<rparr> \<and>
            (order_side ord = BID \<longrightarrow>
               cash p' = cash p - (notional + fee) \<and>
               position p' = position p + qty_lots ord) \<and>
            (order_side ord = ASK \<longrightarrow>
               cash p' = cash p + (notional - fee) \<and>
               position p' = position p - qty_lots ord))"
proof -
  have n0: "0 \<le> notional" using pos qty notional by simp
  from fee_atoms_valid [OF fm n0]
  have fa: "fee_atoms fm notional = Inr fee" and f0: "0 \<le> fee"
    by (simp_all add: fee)
  show ?thesis
  proof (cases "order_side ord")
    case BID
    then show ?thesis
      using run qty avail pos fa f0 price notional
      by (auto simp: execute_market_order_def risk_ok_def apply_fill_def Let_def
          split: if_splits)
  next
    case ASK
    then show ?thesis
      using run qty avail pos fa f0 price notional
      by (auto simp: execute_market_order_def risk_ok_def apply_fill_def Let_def
          split: if_splits)
  qed
qed

theorem execute_market_order_risk_witness:
  "execute_market_order 7 \<lparr>order_side = BID, qty_lots = 2\<rparr>
      \<lparr>bid_px = 10, bid_qty = 5, ask_px = 11, ask_qty = 5\<rparr>
      \<lparr>cash = 21, position = 0\<rparr> \<lparr>bps = 10\<rparr> False False True
     = (Skipped, \<lparr>cash = 21, position = 0\<rparr>) \<and>
   \<not> risk_ok BID \<lparr>cash = 21, position = 0\<rparr> 22 0 2 False False"
  using execute_market_order_risk [of 10 "\<lparr>bps = 10\<rparr>" "\<lparr>order_side = BID, qty_lots = 2\<rparr>"
      11 "\<lparr>bid_px = 10, bid_qty = 5, ask_px = 11, ask_qty = 5\<rparr>" 22 0 7
      "\<lparr>cash = 21, position = 0\<rparr>" False False True
      "fst (execute_market_order 7 \<lparr>order_side = BID, qty_lots = 2\<rparr>
         \<lparr>bid_px = 10, bid_qty = 5, ask_px = 11, ask_qty = 5\<rparr>
         \<lparr>cash = 21, position = 0\<rparr> \<lparr>bps = 10\<rparr> False False True)"
      "snd (execute_market_order 7 \<lparr>order_side = BID, qty_lots = 2\<rparr>
         \<lparr>bid_px = 10, bid_qty = 5, ask_px = 11, ask_qty = 5\<rparr>
         \<lparr>cash = 21, position = 0\<rparr> \<lparr>bps = 10\<rparr> False False True)"]
  by (simp add: FixedBpsFeeModel_init_def risk_ok_def execute_market_order_def
      fee_atoms_def)

subsection \<open>Properties of the return series\<close>

lemma nearest_half_even_unique:
  assumes "0 < d" "nearest_half_even k n d" "nearest_half_even k' n d"
  shows "k = k'"
proof (rule ccontr)
  assume ne: "k \<noteq> k'"
  have a: "2 * \<bar>k * d - n\<bar> \<le> d" "2 * \<bar>k' * d - n\<bar> \<le> d"
    using assms by (auto simp: nearest_half_even_def)
  have eq: "\<bar>k - k'\<bar> * d = \<bar>(k * d - n) - (k' * d - n)\<bar>"
  proof -
    have "\<bar>k - k'\<bar> * d = \<bar>(k - k') * d\<bar>"
      using assms(1) by (simp add: abs_mult)
    then show ?thesis by (simp add: algebra_simps)
  qed
  also have "\<dots> \<le> \<bar>k * d - n\<bar> + \<bar>k' * d - n\<bar>" by linarith
  finally have le: "\<bar>k - k'\<bar> * d \<le> 1 * d" using a by simp
  then have "\<bar>k - k'\<bar> \<le> 1" using assms(1) by simp
  with ne have k1: "\<bar>k - k'\<bar> = 1" by linarith
  define u where "u = k * d - n"
  define v where "v = k' * d - n"
  from eq k1 have "d = \<bar>u - v\<bar>" by (simp add: u_def v_def)
  moreover have "2 * \<bar>u\<bar> \<le> d" "2 * \<bar>v\<bar> \<le> d" using a by (simp_all add: u_def v_def)
  ultimately have "2 * \<bar>u\<bar> = d \<and> 2 * \<bar>v\<bar> = d" by linarith
  then have "2 * \<bar>k * d - n\<bar> = d \<and> 2 * \<bar>k' * d - n\<bar> = d"
    by (simp add: u_def v_def)
  then have "even k" "even k'" using assms by (auto simp: nearest_half_even_def)
  with k1 show False by presburger
qed

lemma half_even_magnitude:
  assumes "0 < d" "0 \<le> m"
  defines "q \<equiv> m div d" and "r \<equiv> m mod d"
  defines "q1 \<equiv> (if r * 2 > d then q + 1
                  else if r * 2 = d \<and> q mod 2 = 1 then q + 1 else q)"
  shows "nearest_half_even q1 m d" and "0 \<le> q1"
proof -
  have m: "m = q * d + r" "0 \<le> r" "r < d"
    using assms by (simp_all add: q_def r_def)
  have q0: "0 \<le> q" using assms by (simp add: q_def pos_imp_zdiv_nonneg_iff)
  then show "0 \<le> q1" by (simp add: q1_def)
  consider (up) "r * 2 > d" | (tie_odd) "r * 2 = d" "q mod 2 = 1"
    | (tie_even) "r * 2 = d" "q mod 2 \<noteq> 1" | (down) "r * 2 < d"
    by linarith
  then show "nearest_half_even q1 m d"
  proof cases
    case up
    then have "q1 * d - m = d - r" by (simp add: q1_def m(1) algebra_simps)
    then show ?thesis using up m by (simp add: nearest_half_even_def)
  next
    case tie_odd
    then have "q1 * d - m = d - r" by (simp add: q1_def m(1) algebra_simps)
    moreover have "even q1" using tie_odd by (simp add: q1_def) presburger
    ultimately show ?thesis using tie_odd m by (simp add: nearest_half_even_def)
  next
    case tie_even
    then have "q1 * d - m = - r" by (simp add: q1_def m(1) algebra_simps)
    moreover have "even q1" using tie_even by (simp add: q1_def) presburger
    ultimately show ?thesis using tie_even m by (simp add: nearest_half_even_def)
  next
    case down
    then have "q1 * d - m = - r" by (simp add: q1_def m(1) algebra_simps)
    then show ?thesis using down m by (simp add: nearest_half_even_def)
  qed
qed

lemma nearest_half_even_neg:
  "nearest_half_even k m d \<Longrightarrow> nearest_half_even (- k) (- m) d"
proof -
  have "\<bar>- k * d - - m\<bar> = \<bar>k * d - m\<bar>" by (simp add: algebra_simps)
  then show "nearest_half_even k m d \<Longrightarrow> nearest_half_even (- k) (- m) d"
    by (simp add: nearest_half_even_def)
qed

lemma round_half_even_nearest:
  assumes "0 < d"
  shows "\<exists>k. round_half_even n d = Inr k \<and> nearest_half_even k n d"
proof (cases "n < 0")
  case True
  then have "0 \<le> - n" by simp
  from half_even_magnitude(1) [OF assms this] nearest_half_even_neg
  have "nearest_half_even (- (if (- n) mod d * 2 > d then (- n) div d + 1
          else if (- n) mod d * 2 = d \<and> ((- n) div d) mod 2 = 1 then (- n) div d + 1
          else (- n) div d)) (- (- n)) d"
    by blast
  then show ?thesis using True assms
    by (simp add: round_half_even_def Let_def)
next
  case False
  then have "0 \<le> n" by simp
  from half_even_magnitude(1) [OF assms this]
  show ?thesis using False assms
    by (simp add: round_half_even_def Let_def)
qed

lemma returns_loop_spec:
  assumes "0 < ic"
  shows "\<exists>rs. returns_loop prev xs ic = Inr rs \<and> length rs = length xs \<and>
     (\<forall>i < length rs.
        nearest_half_even (rs ! i) (((prev # xs) ! Suc i - (prev # xs) ! i) * BPS_SCALE) ic)"
proof (induction xs arbitrary: prev)
  case Nil
  then show ?case by simp
next
  case (Cons x xs)
  from round_half_even_nearest [OF assms, of "(x - prev) * BPS_SCALE"]
  obtain k where k: "round_half_even ((x - prev) * BPS_SCALE) ic = Inr k"
    "nearest_half_even k ((x - prev) * BPS_SCALE) ic" by blast
  from Cons.IH [of x] obtain rs where rs: "returns_loop x xs ic = Inr rs"
    "length rs = length xs"
    "\<forall>i < length rs. nearest_half_even (rs ! i) (((x # xs) ! Suc i - (x # xs) ! i) * BPS_SCALE) ic"
    by blast
  have "\<forall>i < length (k # rs).
      nearest_half_even ((k # rs) ! i) (((prev # x # xs) ! Suc i - (prev # x # xs) ! i) * BPS_SCALE) ic"
  proof (intro allI impI)
    fix i assume "i < length (k # rs)"
    then show "nearest_half_even ((k # rs) ! i)
        (((prev # x # xs) ! Suc i - (prev # x # xs) ! i) * BPS_SCALE) ic"
      using k(2) rs(3) by (cases i) simp_all
  qed
  then show ?case using k(1) rs(1,2) by simp
qed

lemma residue_sum:
  assumes "0 < ic" "length rs = length xs"
    "\<forall>i < length rs.
        nearest_half_even (rs ! i) (((prev # xs) ! Suc i - (prev # xs) ! i) * BPS_SCALE) ic"
  shows "2 * \<bar>sum_list rs * ic - (last (prev # xs) - prev) * BPS_SCALE\<bar> \<le> int (length rs) * ic"
  using assms(2,3)
proof (induction xs arbitrary: prev rs)
  case Nil
  then show ?case by simp
next
  case (Cons x xs)
  then obtain k rs' where rs: "rs = k # rs'" by (cases rs) auto
  with Cons.prems have len: "length rs' = length xs" by simp
  have hd: "nearest_half_even k ((x - prev) * BPS_SCALE) ic"
    using Cons.prems(2) rs by (metis length_Cons nth_Cons_0 nth_Cons_Suc zero_less_Suc)
  have tl: "\<forall>i < length rs'.
      nearest_half_even (rs' ! i) (((x # xs) ! Suc i - (x # xs) ! i) * BPS_SCALE) ic"
  proof (intro allI impI)
    fix i assume "i < length rs'"
    then have "Suc i < length rs" by (simp add: rs)
    with Cons.prems(2) show "nearest_half_even (rs' ! i) (((x # xs) ! Suc i - (x # xs) ! i) * BPS_SCALE) ic"
      by (metis nth_Cons_Suc rs)
  qed
  from Cons.IH [OF len tl]
  have ih: "2 * \<bar>sum_list rs' * ic - (last (x # xs) - x) * BPS_SCALE\<bar> \<le> int (length rs') * ic" .
  from hd have h: "2 * \<bar>k * ic - (x - prev) * BPS_SCALE\<bar> \<le> ic"
    by (simp add: nearest_half_even_def)
  define u where "u = k * ic - (x - prev) * BPS_SCALE"
  define v where "v = sum_list rs' * ic - (last (x # xs) - x) * BPS_SCALE"
  define w where "w = sum_list rs * ic - (last (prev # x # xs) - prev) * BPS_SCALE"
  define b where "b = int (length rs') * ic"
  have "w = u + v" unfolding u_def v_def w_def by (simp add: rs algebra_simps)
  moreover have "2 * \<bar>v\<bar> \<le> b" "2 * \<bar>u\<bar> \<le> ic"
    using ih h by (simp_all add: u_def v_def b_def)
  ultimately have "2 * \<bar>w\<bar> \<le> ic + b" by linarith
  moreover have "int (length rs) * ic = ic + b"
    by (simp add: rs b_def algebra_simps)
  ultimately show ?case by (simp add: w_def)
qed


text \<open>
  C9. \<open>returns_from_equity\<close> fails when \<open>initial_cash \<le> 0\<close> or fewer than two
  equity points are given. Otherwise it yields one return per consecutive pair of points,
  each the integer nearest to \<open>(\<Delta>equity * 10000) / initial_cash\<close> with ties going
  to the even integer (for negative deltas too), and that integer is unique; the returns
  summed and scaled by \<open>initial_cash / 10000\<close> differ from
  \<open>final_equity - initial_equity\<close> by at most half a bps unit per step.
\<close>

theorem returns_from_equity_half_even:
  "(initial_cash \<le> 0 \<or> length equity < 2 \<longrightarrow>
      (\<exists>msg. returns_from_equity equity initial_cash = Inl (SchemaError msg))) \<and>
   (0 < initial_cash \<and> 2 \<le> length equity \<longrightarrow>
      (\<exists>rs. returns_from_equity equity initial_cash = Inr rs \<and>
         length rs = length equity - 1 \<and>
         (\<forall>i < length rs.
            nearest_half_even (rs ! i)
              ((equity ! Suc i - equity ! i) * 10000) initial_cash \<and>
            (\<forall>k. nearest_half_even k
                   ((equity ! Suc i - equity ! i) * 10000) initial_cash \<longrightarrow> k = rs ! i)) \<and>
         2 * \<bar>sum_list rs * initial_cash - (last equity - hd equity) * 10000\<bar>
           \<le> int (length rs) * initial_cash))"
proof (intro conjI impI)
  assume "initial_cash \<le> 0 \<or> length equity < 2"
  then show "\<exists>msg. returns_from_equity equity initial_cash = Inl (SchemaError msg)"
    by (auto simp: returns_from_equity_def)
next
  assume a: "0 < initial_cash \<and> 2 \<le> length equity"
  then obtain prev xs where eq: "equity = prev # xs" by (cases equity) auto
  from a have pos: "0 < initial_cash" by simp
  from returns_loop_spec [OF pos, of prev xs]
  obtain rs where rs: "returns_loop prev xs initial_cash = Inr rs" "length rs = length xs"
    "\<forall>i < length rs. nearest_half_even (rs ! i)
        (((prev # xs) ! Suc i - (prev # xs) ! i) * BPS_SCALE) initial_cash"
    by blast
  have run: "returns_from_equity equity initial_cash = Inr rs"
    using a rs(1) by (cases xs) (simp_all add: returns_from_equity_def eq)
  have near: "\<forall>i < length rs.
      nearest_half_even (rs ! i) ((equity ! Suc i - equity ! i) * 10000) initial_cash \<and>
      (\<forall>k. nearest_half_even k ((equity ! Suc i - equity ! i) * 10000) initial_cash
           \<longrightarrow> k = rs ! i)"
    using rs(3) nearest_half_even_unique [OF pos]
    unfolding eq BPS_SCALE_def by blast
  have "2 * \<bar>sum_list rs * initial_cash - (last (prev # xs) - prev) * BPS_SCALE\<bar>
      \<le> int (length rs) * initial_cash"
    by (rule residue_sum [OF pos rs(2,3)])
  then have res: "2 * \<bar>sum_list rs * initial_cash - (last equity - hd equity) * 10000\<bar>
      \<le> int (length rs) * initial_cash"
    by (simp add: eq BPS_SCALE_def)
  show "\<exists>rs. returns_from_equity equity initial_cash = Inr rs \<and>
         length rs = length equity - 1 \<and>
         (\<forall>i < length rs.
            nearest_half_even (rs ! i)
              ((equity ! Suc i - equity ! i) * 10000) initial_cash \<and>
            (\<forall>k. nearest_half_even k
                   ((equity ! Suc i - equity ! i) * 10000) initial_cash \<longrightarrow> k = rs ! i)) \<and>
         2 * \<bar>sum_list rs * initial_cash - (last equity - hd equity) * 10000\<bar>
           \<le> int (length rs) * initial_cash"
    using run rs(2) near res by (auto simp: eq)
qed

theorem returns_from_equity_half_even_witness:
  "returns_from_equity [0, 3, 2] 20000 = Inr [2, 0] \<and>
   nearest_half_even 2 ((3 - 0) * 10000) 20000 \<and>
   nearest_half_even 0 ((2 - 3) * 10000) 20000 \<and>
   (\<exists>msg. returns_from_equity [1000] 1000 = Inl (SchemaError msg))"
  using returns_from_equity_half_even [of 20000 "[0, 3, 2]"]
    returns_from_equity_half_even [of 1000 "[1000]"]
  by (simp add: returns_from_equity_def round_half_even_def BPS_SCALE_def
      nearest_half_even_def)

end
